theory Spec2Isabelle
  imports Main "HOL-Library.Monad_Syntax"
begin

section \<open>The node store\<close>

text \<open>
  The container of \<^verbatim>\<open>RBTree.h\<close> is a graph of heap nodes linked by raw pointers
  (\<^verbatim>\<open>left\<close>, \<^verbatim>\<open>right\<close>, \<^verbatim>\<open>parent\<close>), mutated in place.  The model keeps the graph:
  a heap is a partial map from addresses to nodes, a pointer is an optional address
  (\<open>None\<close> is \<^verbatim>\<open>nullptr\<close>), and every function of the source becomes a function on
  heaps in the option monad.  The result \<open>None\<close> stands for undefined behaviour: a read
  or write through a null or dangling pointer, or a loop that never leaves.

  The source's names end in an underscore (\<^verbatim>\<open>First_\<close>, \<^verbatim>\<open>Merge_\<close>, ...), which
  a name cannot do here; the underscore is dropped.  The field \<^verbatim>\<open>size\<close> is \<open>size_f\<close>
  and \<^verbatim>\<open>value\<close> is \<open>val\<close>.  The counters \<^verbatim>\<open>size\<close> (\<^verbatim>\<open>size_t\<close>) and
  \<^verbatim>\<open>black_height\<close> (\<^verbatim>\<open>uint8_t\<close>) are natural numbers: a subtree size never
  exceeds the number of live nodes, which the address space bounds below the range of
  \<^verbatim>\<open>size_t\<close>, and the invariants keep a black height below twice the logarithm of
  that number; every decrement the source performs is shown below to act on a positive
  counter.  The head node is a plain \<^verbatim>\<open>Node_\<close> without a value (\<open>val = None\<close>).
\<close>

type_synonym addr = nat
type_synonym ptr = "addr option"

record 'a Node =
  left :: ptr
  right :: ptr
  parent :: ptr
  size_f :: nat
  black_height :: nat
  black :: bool
  val :: "'a option"

type_synonym 'a heap = "addr \<Rightarrow> 'a Node option"

text \<open>\<^verbatim>\<open>Node_()\<close>, \<^verbatim>\<open>NodeVal_(val)\<close> and the copying \<^verbatim>\<open>NodeVal_(x, p)\<close>.\<close>

definition Node_new :: "'a Node" where
  "Node_new = \<lparr>left = None, right = None, parent = None, size_f = 1, black_height = 0,
     black = False, val = None\<rparr>"

definition NodeVal_new :: "'a \<Rightarrow> 'a Node" where
  "NodeVal_new v = Node_new\<lparr>val := Some v\<rparr>"

definition NodeVal_copy :: "'a Node \<Rightarrow> ptr \<Rightarrow> 'a Node" where
  "NodeVal_copy x p = \<lparr>left = None, right = None, parent = p, size_f = size_f x,
     black_height = black_height x, black = black x, val = val x\<rparr>"

text \<open>Reading \<^verbatim>\<open>*p\<close> and writing \<^verbatim>\<open>p->field = ...\<close>.\<close>

definition deref :: "'a heap \<Rightarrow> ptr \<Rightarrow> 'a Node option" where
  "deref h p = (case p of None \<Rightarrow> None | Some a \<Rightarrow> h a)"

definition modify :: "'a heap \<Rightarrow> ptr \<Rightarrow> ('a Node \<Rightarrow> 'a Node) \<Rightarrow> 'a heap option" where
  "modify h p f = (case p of None \<Rightarrow> None
     | Some a \<Rightarrow> (case h a of None \<Rightarrow> None | Some n \<Rightarrow> Some (h(a \<mapsto> f n))))"

section \<open>Navigation\<close>

partial_function (option) First :: "'a heap \<Rightarrow> ptr \<Rightarrow> ptr option" where
  "First h nd = do {
     n \<leftarrow> deref h nd;
     if left n \<noteq> None then First h (left n) else Some nd }"

partial_function (option) Last :: "'a heap \<Rightarrow> ptr \<Rightarrow> ptr option" where
  "Last h nd = do {
     n \<leftarrow> deref h nd;
     if right n \<noteq> None then Last h (right n) else Some nd }"

definition ConnectLeft :: "'a heap \<Rightarrow> ptr \<Rightarrow> ptr \<Rightarrow> 'a heap option" where
  "ConnectLeft h p ch = do {
     h \<leftarrow> modify h p (\<lambda>n. n\<lparr>left := ch\<rparr>);
     if ch \<noteq> None then modify h ch (\<lambda>n. n\<lparr>parent := p\<rparr>) else Some h }"

definition ConnectLeftNoCheck :: "'a heap \<Rightarrow> ptr \<Rightarrow> ptr \<Rightarrow> 'a heap option" where
  "ConnectLeftNoCheck h p ch = do {
     h \<leftarrow> modify h p (\<lambda>n. n\<lparr>left := ch\<rparr>);
     modify h ch (\<lambda>n. n\<lparr>parent := p\<rparr>) }"

definition ConnectRight :: "'a heap \<Rightarrow> ptr \<Rightarrow> ptr \<Rightarrow> 'a heap option" where
  "ConnectRight h p ch = do {
     h \<leftarrow> modify h p (\<lambda>n. n\<lparr>right := ch\<rparr>);
     if ch \<noteq> None then modify h ch (\<lambda>n. n\<lparr>parent := p\<rparr>) else Some h }"

definition ConnectRightNoCheck :: "'a heap \<Rightarrow> ptr \<Rightarrow> ptr \<Rightarrow> 'a heap option" where
  "ConnectRightNoCheck h p ch = do {
     h \<leftarrow> modify h p (\<lambda>n. n\<lparr>right := ch\<rparr>);
     modify h ch (\<lambda>n. n\<lparr>parent := p\<rparr>) }"

text \<open>
  \<^verbatim>\<open>(p->left == orig ? p->left : p->right) = n\<close>: the slot of \<open>p\<close> that is overwritten.
\<close>

definition set_slot :: "ptr \<Rightarrow> ptr \<Rightarrow> 'a Node \<Rightarrow> 'a Node" where
  "set_slot orig n pn = (if left pn = orig then pn\<lparr>left := n\<rparr> else pn\<lparr>right := n\<rparr>)"

definition ConnectParent :: "'a heap \<Rightarrow> ptr \<Rightarrow> ptr \<Rightarrow> 'a heap option" where
  "ConnectParent h orig n = do {
     on \<leftarrow> deref h orig;
     let p = parent on;
     h \<leftarrow> modify h n (\<lambda>x. x\<lparr>parent := p\<rparr>);
     if p \<noteq> None then modify h p (set_slot orig n) else Some h }"

definition ConnectParentNoCheck :: "'a heap \<Rightarrow> ptr \<Rightarrow> ptr \<Rightarrow> 'a heap option" where
  "ConnectParentNoCheck h orig n = do {
     on \<leftarrow> deref h orig;
     let p = parent on;
     h \<leftarrow> modify h n (\<lambda>x. x\<lparr>parent := p\<rparr>);
     modify h p (set_slot orig n) }"

definition Size :: "'a heap \<Rightarrow> ptr \<Rightarrow> nat option" where
  "Size h nd = (if nd \<noteq> None then map_option size_f (deref h nd) else Some 0)"

section \<open>Cursors\<close>

text \<open>
  \<^verbatim>\<open>Iterator_\<close> and \<^verbatim>\<open>ConstIterator_\<close> hold one field, \<^verbatim>\<open>ptr_\<close>; the read-only
  cursor is built from the mutable one by copying it.
\<close>

record Iterator =
  ptr :: ptr

record ConstIterator =
  cptr :: ptr

definition Iterator_new :: Iterator where
  "Iterator_new = \<lparr>ptr = None\<rparr>"

definition ConstIterator_new :: ConstIterator where
  "ConstIterator_new = \<lparr>cptr = None\<rparr>"

definition ConstIterator_of :: "Iterator \<Rightarrow> ConstIterator" where
  "ConstIterator_of it = \<lparr>cptr = ptr it\<rparr>"

definition is_null :: "Iterator \<Rightarrow> bool" where
  "is_null it = (\<not> (ptr it \<noteq> None))"

definition operator_bool :: "Iterator \<Rightarrow> bool" where
  "operator_bool it = (\<not> (ptr it \<noteq> None))"

definition const_is_null :: "ConstIterator \<Rightarrow> bool" where
  "const_is_null it = (\<not> (cptr it \<noteq> None))"

definition const_operator_bool :: "ConstIterator \<Rightarrow> bool" where
  "const_operator_bool it = (\<not> (cptr it \<noteq> None))"

section \<open>Allocation, teardown and copying\<close>

text \<open>
  \<^verbatim>\<open>malloc\<close> hands out an address that is not in use.  Which one is the allocator's
  choice, so the address is a parameter of every function that allocates; functions that
  allocate in a loop draw from a list of addresses, and an exhausted list is a failed
  allocation.
\<close>

definition GenNode :: "'a heap \<Rightarrow> addr \<Rightarrow> 'a \<Rightarrow> 'a heap" where
  "GenNode h a v = h(a \<mapsto> NodeVal_new v)"

definition GenNode_copy :: "'a heap \<Rightarrow> addr \<Rightarrow> ptr \<Rightarrow> ptr \<Rightarrow> 'a heap option" where
  "GenNode_copy h a x p = do { xn \<leftarrow> deref h x; Some (h(a \<mapsto> NodeVal_copy xn p)) }"

definition FreeNode :: "'a heap \<Rightarrow> ptr \<Rightarrow> 'a heap option" where
  "FreeNode h nd = (case nd of None \<Rightarrow> None
     | Some a \<Rightarrow> (case h a of None \<Rightarrow> None | Some n \<Rightarrow> Some (h(a := None))))"

partial_function (option) ClearTree_loop :: "'a heap \<Rightarrow> ptr \<Rightarrow> ptr \<Rightarrow> 'a heap option" where
  "ClearTree_loop h nd now = do {
     let tmp = now;
     n \<leftarrow> deref h now;
     if left n \<noteq> None then do {
       h \<leftarrow> modify h tmp (\<lambda>x. x\<lparr>left := None\<rparr>);
       ClearTree_loop h nd (left n) }
     else if right n \<noteq> None then do {
       h \<leftarrow> modify h tmp (\<lambda>x. x\<lparr>right := None\<rparr>);
       ClearTree_loop h nd (right n) }
     else if now = nd then Some h
     else do {
       h \<leftarrow> FreeNode h tmp;
       ClearTree_loop h nd (parent n) } }"

definition ClearTree :: "'a heap \<Rightarrow> ptr \<Rightarrow> 'a heap option" where
  "ClearTree h nd = ClearTree_loop h nd nd"

partial_function (option) CopyTree_loop ::
  "'a heap \<Rightarrow> addr list \<Rightarrow> ptr \<Rightarrow> ptr \<Rightarrow> ptr \<Rightarrow> 'a heap option" where
  "CopyTree_loop h fresh dest now orig = do {
     d \<leftarrow> deref h dest;
     n \<leftarrow> deref h now;
     if left d = None \<and> left n \<noteq> None then
       (case fresh of [] \<Rightarrow> None
        | a # fresh \<Rightarrow> do {
            h \<leftarrow> GenNode_copy h a (left n) dest;
            h \<leftarrow> modify h dest (\<lambda>x. x\<lparr>left := Some a\<rparr>);
            CopyTree_loop h fresh (Some a) (left n) orig })
     else if right d = None \<and> right n \<noteq> None then
       (case fresh of [] \<Rightarrow> None
        | a # fresh \<Rightarrow> do {
            h \<leftarrow> GenNode_copy h a (right n) dest;
            h \<leftarrow> modify h dest (\<lambda>x. x\<lparr>right := Some a\<rparr>);
            CopyTree_loop h fresh (Some a) (right n) orig })
     else if now = orig then Some h
     else CopyTree_loop h fresh (parent d) (parent n) orig }"

definition CopyTree :: "'a heap \<Rightarrow> addr list \<Rightarrow> ptr \<Rightarrow> ptr \<Rightarrow> 'a heap option" where
  "CopyTree h fresh dest orig = CopyTree_loop h fresh dest orig orig"

section \<open>The tree object\<close>

text \<open>
  An \<^verbatim>\<open>RBTree\<close> object has one member, \<^verbatim>\<open>head_\<close>.  A member function takes the
  heap and the object and returns both; a function on two objects (\<^verbatim>\<open>this\<close> and the
  reference argument) returns both objects.
\<close>

record RBTree =
  head :: ptr

definition Init :: "'a heap \<Rightarrow> addr \<Rightarrow> 'a heap \<times> RBTree" where
  "Init h a = (h(a \<mapsto> Node_new), \<lparr>head = Some a\<rparr>)"

text \<open>\<^verbatim>\<open>RBTree()\<close>, \<^verbatim>\<open>RBTree(const RBTree&)\<close>, \<^verbatim>\<open>RBTree(RBTree&&)\<close>.\<close>

definition RBTree_new :: "'a heap \<Rightarrow> addr \<Rightarrow> 'a heap \<times> RBTree" where
  "RBTree_new h a = Init h a"

definition RBTree_copy :: "'a heap \<Rightarrow> addr \<Rightarrow> addr list \<Rightarrow> RBTree \<Rightarrow> ('a heap \<times> RBTree) option" where
  "RBTree_copy h a fresh tree = (case Init h a of (h, this) \<Rightarrow> do {
     h \<leftarrow> CopyTree h fresh (head this) (head tree);
     Some (h, this) })"

definition RBTree_move :: "'a heap \<Rightarrow> addr \<Rightarrow> RBTree \<Rightarrow> 'a heap \<times> RBTree \<times> RBTree" where
  "RBTree_move h a tree = (case Init h a of (h, this) \<Rightarrow>
     (h, this\<lparr>head := head tree\<rparr>, tree\<lparr>head := head this\<rparr>))"

text \<open>
  Copy assignment.  The argument is a reference: when it is the object itself, the
  \<^verbatim>\<open>tree.head_\<close> read after \<^verbatim>\<open>ClearTree_()\<close> is the object's own, unchanged, head.
\<close>

definition copy_assign :: "'a heap \<Rightarrow> addr list \<Rightarrow> RBTree \<Rightarrow> RBTree \<Rightarrow> ('a heap \<times> RBTree) option" where
  "copy_assign h fresh this tree = do {
     h \<leftarrow> ClearTree h (head this);
     h \<leftarrow> CopyTree h fresh (head this) (head tree);
     Some (h, this) }"

text \<open>Move assignment, on two distinct objects: \<^verbatim>\<open>std::swap(head_, tree.head_)\<close>.\<close>

definition move_assign :: "RBTree \<Rightarrow> RBTree \<Rightarrow> RBTree \<times> RBTree" where
  "move_assign this tree = (this\<lparr>head := head tree\<rparr>, tree\<lparr>head := head this\<rparr>)"

definition empty :: "'a heap \<Rightarrow> RBTree \<Rightarrow> bool option" where
  "empty h this = do { hn \<leftarrow> deref h (head this); Some (\<not> (left hn \<noteq> None)) }"

definition size_of :: "'a heap \<Rightarrow> RBTree \<Rightarrow> nat option" where
  "size_of h this = do { hn \<leftarrow> deref h (head this); Size h (left hn) }"

definition end_of :: "RBTree \<Rightarrow> Iterator" where
  "end_of this = \<lparr>ptr = head this\<rparr>"

definition begin_of :: "'a heap \<Rightarrow> RBTree \<Rightarrow> Iterator option" where
  "begin_of h this = do { p \<leftarrow> First h (head this); Some \<lparr>ptr = p\<rparr> }"


section \<open>Order statistics\<close>

partial_function (option) Select :: "'a heap \<Rightarrow> ptr \<Rightarrow> nat \<Rightarrow> ptr option" where
  "Select h nd x = do {
     n \<leftarrow> deref h nd;
     sl \<leftarrow> Size h (left n);
     if sl = x then Some nd
     else if sl > x then Select h (left n) x
     else Select h (right n) (x - (sl + 1)) }"

text \<open>
  The two climbing loops of \<^verbatim>\<open>Advance_\<close>:
  \<^verbatim>\<open>for (; nd->parent && nd->parent->left == nd; nd = nd->parent);\<close> and its mirror image.
\<close>

partial_function (option) climb_left :: "'a heap \<Rightarrow> ptr \<Rightarrow> ptr option" where
  "climb_left h nd = do {
     n \<leftarrow> deref h nd;
     if parent n \<noteq> None then do {
       pn \<leftarrow> deref h (parent n);
       if left pn = nd then climb_left h (parent n) else Some nd }
     else Some nd }"

partial_function (option) climb_right :: "'a heap \<Rightarrow> ptr \<Rightarrow> ptr option" where
  "climb_right h nd = do {
     n \<leftarrow> deref h nd;
     if parent n \<noteq> None then do {
       pn \<leftarrow> deref h (parent n);
       if right pn = nd then climb_right h (parent n) else Some nd }
     else Some nd }"

partial_function (option) Advance_back :: "'a heap \<Rightarrow> ptr \<Rightarrow> nat \<Rightarrow> ptr option" where
  "Advance_back h nd g = do {
     n \<leftarrow> deref h nd;
     sl \<leftarrow> Size h (left n);
     if sl < g then do {
       let g = g - (sl + 1);
       nd \<leftarrow> climb_left h nd;
       n \<leftarrow> deref h nd;
       let nd = parent n;
       if g = 0 then Some nd else Advance_back h nd g }
     else Select h (left n) (sl - g) }"

partial_function (option) Advance_forth :: "'a heap \<Rightarrow> ptr \<Rightarrow> nat \<Rightarrow> ptr option" where
  "Advance_forth h nd g = do {
     n \<leftarrow> deref h nd;
     sr \<leftarrow> Size h (right n);
     if sr < g then do {
       let g = g - (sr + 1);
       nd \<leftarrow> climb_right h nd;
       n \<leftarrow> deref h nd;
       let nd = parent n;
       if g = 0 then Some nd else Advance_forth h nd g }
     else Select h (right n) (g - 1) }"

text \<open>The offset is a \<^verbatim>\<open>ptrdiff_t\<close>, an integer here; \<open>g\<close> is its magnitude.\<close>

definition Advance :: "'a heap \<Rightarrow> ptr \<Rightarrow> int \<Rightarrow> ptr option" where
  "Advance h nd x =
     (if x = 0 then Some nd
      else if x < 0 then Advance_back h nd (nat (- x))
      else Advance_forth h nd (nat x))"

partial_function (option) Order_loop :: "'a heap \<Rightarrow> ptr \<Rightarrow> nat \<Rightarrow> nat option" where
  "Order_loop h nd ans = do {
     n \<leftarrow> deref h nd;
     if parent n \<noteq> None then do {
       pn \<leftarrow> deref h (parent n);
       ans \<leftarrow> (if right pn = nd then do { s \<leftarrow> Size h (left pn); Some (ans + (s + 1)) }
               else Some ans);
       Order_loop h (parent n) ans }
     else Some ans }"

definition Order :: "'a heap \<Rightarrow> ptr \<Rightarrow> nat option" where
  "Order h nd = do {
     n \<leftarrow> deref h nd;
     ans \<leftarrow> Size h (left n);
     Order_loop h nd ans }"

definition Difference :: "'a heap \<Rightarrow> ptr \<Rightarrow> ptr \<Rightarrow> int option" where
  "Difference h a b = do {
     x \<leftarrow> Order h a;
     y \<leftarrow> Order h b;
     Some (int x - int y) }"

text \<open>Cursor arithmetic: \<^verbatim>\<open>it + x\<close> and \<^verbatim>\<open>it - other\<close>.\<close>

definition iterator_plus :: "'a heap \<Rightarrow> Iterator \<Rightarrow> int \<Rightarrow> Iterator option" where
  "iterator_plus h it x = do { p \<leftarrow> Advance h (ptr it) x; Some \<lparr>ptr = p\<rparr> }"

definition iterator_minus :: "'a heap \<Rightarrow> Iterator \<Rightarrow> Iterator \<Rightarrow> int option" where
  "iterator_minus h it other = Difference h (ptr it) (ptr other)"

section \<open>Size and colour bookkeeping\<close>

text \<open>
  \<^verbatim>\<open>Pull_\<close> is the virtual hook for derived classes; in \<^verbatim>\<open>RBTree\<close> itself its body is
  empty.
\<close>

definition Pull :: "'a heap \<Rightarrow> ptr \<Rightarrow> 'a heap option" where
  "Pull h nd = Some h"

definition PullSize :: "'a heap \<Rightarrow> ptr \<Rightarrow> 'a heap option" where
  "PullSize h nd = do {
     n \<leftarrow> deref h nd;
     sl \<leftarrow> Size h (left n);
     sr \<leftarrow> Size h (right n);
     h \<leftarrow> modify h nd (\<lambda>x. x\<lparr>size_f := sl + sr + 1\<rparr>);
     Pull h nd }"

definition PullSizeNoCheck :: "'a heap \<Rightarrow> ptr \<Rightarrow> 'a heap option" where
  "PullSizeNoCheck h nd = do {
     n \<leftarrow> deref h nd;
     ln \<leftarrow> deref h (left n);
     rn \<leftarrow> deref h (right n);
     h \<leftarrow> modify h nd (\<lambda>x. x\<lparr>size_f := size_f ln + size_f rn + 1\<rparr>);
     Pull h nd }"

partial_function (option) IncreaseSize :: "'a heap \<Rightarrow> ptr \<Rightarrow> ptr \<Rightarrow> nat \<Rightarrow> ('a heap \<times> ptr) option" where
  "IncreaseSize h nd head' sz = do {
     h \<leftarrow> modify h nd (\<lambda>x. x\<lparr>size_f := size_f x + sz\<rparr>);
     h \<leftarrow> Pull h nd;
     n \<leftarrow> deref h nd;
     if parent n = head' then Some (h, nd)
     else IncreaseSize h (parent n) head' sz }"

partial_function (option) DecreaseSize :: "'a heap \<Rightarrow> RBTree \<Rightarrow> ptr \<Rightarrow> 'a heap option" where
  "DecreaseSize h this nd =
     (if nd \<noteq> head this then do {
        h \<leftarrow> modify h nd (\<lambda>x. x\<lparr>size_f := size_f x - 1\<rparr>);
        h \<leftarrow> Pull h nd;
        n \<leftarrow> deref h nd;
        DecreaseSize h this (parent n) }
      else Some h)"

definition PaintBlack :: "'a heap \<Rightarrow> ptr \<Rightarrow> 'a heap option" where
  "PaintBlack h nd =
     (if nd \<noteq> None then
        modify h nd (\<lambda>x. x\<lparr>black_height := black_height x + (if \<not> black x then 1 else 0),
                            black := True\<rparr>)
      else Some h)"

section \<open>Insertion\<close>

text \<open>
  \<^verbatim>\<open>!u || u->black\<close>, the test that the uncle, sibling or nephew is absent or black.
\<close>

definition black_or_null :: "'a heap \<Rightarrow> ptr \<Rightarrow> bool option" where
  "black_or_null h u = (if \<not> (u \<noteq> None) then Some True else map_option black (deref h u))"

partial_function (option) InsertRepair_loop ::
  "'a heap \<Rightarrow> ptr \<Rightarrow> ptr \<Rightarrow> nat \<Rightarrow> ('a heap \<times> ptr) option" where
  "InsertRepair_loop h nd head' sz = do {
     n \<leftarrow> deref h nd;
     let p = parent n;
     if p = head' then do {
       h \<leftarrow> modify h nd (\<lambda>x. x\<lparr>black := True\<rparr>);
       h \<leftarrow> modify h nd (\<lambda>x. x\<lparr>black_height := black_height x + 1\<rparr>);
       Some (h, nd) }
     else do {
       pn \<leftarrow> deref h p;
       if black pn then IncreaseSize h p head' sz
       else do {
         let g = parent pn;
         gn \<leftarrow> deref h g;
         let u = (if left gn = p then right gn else left gn);
         ub \<leftarrow> black_or_null h u;
         if ub then do {
           (h, nd, p) \<leftarrow>
             (if p = left gn then do {
                (h, nd, p) \<leftarrow>
                  (if nd = right pn then do {
                     let (nd, p) = (p, nd);
                     pn \<leftarrow> deref h p;
                     h \<leftarrow> ConnectRight h nd (left pn);
                     h \<leftarrow> ConnectLeftNoCheck h p nd;
                     h \<leftarrow> PullSize h nd;
                     Some (h, nd, p) }
                   else Some (h, nd, p));
                h \<leftarrow> ConnectParent h g p;
                pn \<leftarrow> deref h p;
                h \<leftarrow> ConnectLeft h g (right pn);
                h \<leftarrow> ConnectRightNoCheck h p g;
                Some (h, nd, p) }
              else do {
                (h, nd, p) \<leftarrow>
                  (if nd = left pn then do {
                     let (nd, p) = (p, nd);
                     pn \<leftarrow> deref h p;
                     h \<leftarrow> ConnectLeft h nd (right pn);
                     h \<leftarrow> ConnectRightNoCheck h p nd;
                     h \<leftarrow> PullSize h nd;
                     Some (h, nd, p) }
                   else Some (h, nd, p));
                h \<leftarrow> ConnectParent h g p;
                pn \<leftarrow> deref h p;
                h \<leftarrow> ConnectRight h g (left pn);
                h \<leftarrow> ConnectLeftNoCheck h p g;
                Some (h, nd, p) });
           h \<leftarrow> PullSize h g;
           h \<leftarrow> modify h g (\<lambda>x. x\<lparr>black := False, black_height := black_height x - 1\<rparr>);
           h \<leftarrow> PullSizeNoCheck h p;
           h \<leftarrow> modify h p (\<lambda>x. x\<lparr>black := True, black_height := black_height x + 1\<rparr>);
           pn \<leftarrow> deref h p;
           if parent pn = head' then Some (h, p)
           else IncreaseSize h (parent pn) head' sz }
         else do {
           h \<leftarrow> modify h p (\<lambda>x. x\<lparr>size_f := size_f x + sz, black := True,
                                  black_height := black_height x + 1\<rparr>);
           h \<leftarrow> Pull h p;
           h \<leftarrow> modify h g (\<lambda>x. x\<lparr>size_f := size_f x + sz, black := False\<rparr>);
           h \<leftarrow> Pull h g;
           h \<leftarrow> modify h u (\<lambda>x. x\<lparr>black := True, black_height := black_height x + 1\<rparr>);
           InsertRepair_loop h g head' sz } } } }"

definition InsertRepair :: "'a heap \<Rightarrow> ptr \<Rightarrow> ptr \<Rightarrow> nat \<Rightarrow> ('a heap \<times> ptr) option" where
  "InsertRepair h nd head' sz = do {
     h \<leftarrow> Pull h nd;
     InsertRepair_loop h nd head' sz }"

definition InsertBefore :: "'a heap \<Rightarrow> RBTree \<Rightarrow> ptr \<Rightarrow> ptr \<Rightarrow> 'a heap option" where
  "InsertBefore h this a b = do {
     h \<leftarrow>
       (if a \<noteq> head this then do {
          an \<leftarrow> deref h a;
          if \<not> (left an \<noteq> None) then ConnectLeftNoCheck h a b
          else do { l \<leftarrow> Last h (left an); ConnectRightNoCheck h l b } }
        else do {
          hn \<leftarrow> deref h (head this);
          if \<not> (left hn \<noteq> None) then ConnectLeftNoCheck h (head this) b
          else do { l \<leftarrow> Last h (left hn); ConnectRightNoCheck h l b } });
     (h, r) \<leftarrow> InsertRepair h b (head this) 1;
     Some h }"

section \<open>Removal\<close>

text \<open>The three final cases of \<^verbatim>\<open>RemoveRepair_\<close>, entered with a black sibling \<open>s\<close>.\<close>

definition RemoveRepair_tail :: "'a heap \<Rightarrow> RBTree \<Rightarrow> ptr \<Rightarrow> ptr \<Rightarrow> 'a heap option" where
  "RemoveRepair_tail h this p s = do {
     pn \<leftarrow> deref h p;
     sn \<leftarrow> deref h s;
     let sin = (if left pn = s then right sn else left sn);
     let sout = (if left pn = s then left sn else right sn);
     so_red \<leftarrow> (if sout \<noteq> None then map_option (\<lambda>x. \<not> black x) (deref h sout) else Some False);
     if so_red then do {
       h \<leftarrow> modify h sout (\<lambda>x. x\<lparr>black := True, black_height := black_height x + 1\<rparr>);
       pn \<leftarrow> deref h p;
       h \<leftarrow> modify h s (\<lambda>x. x\<lparr>black_height := black_height x + (if black pn then 1 else 0)\<rparr>);
       h \<leftarrow> modify h p (\<lambda>x. x\<lparr>black_height := black_height x - (if black x then 1 else 0)\<rparr>);
       pn \<leftarrow> deref h p;
       h \<leftarrow> modify h s (\<lambda>x. x\<lparr>black := black pn\<rparr>);
       h \<leftarrow> modify h p (\<lambda>x. x\<lparr>black := True\<rparr>);
       h \<leftarrow> ConnectParentNoCheck h p s;
       pn \<leftarrow> deref h p;
       h \<leftarrow> (if left pn = s then do {
               sn \<leftarrow> deref h s;
               h \<leftarrow> ConnectLeft h p (right sn);
               ConnectRightNoCheck h s p }
             else do {
               sn \<leftarrow> deref h s;
               h \<leftarrow> ConnectRight h p (left sn);
               ConnectLeftNoCheck h s p });
       h \<leftarrow> PullSize h p;
       h \<leftarrow> PullSizeNoCheck h s;
       sn \<leftarrow> deref h s;
       DecreaseSize h this (parent sn) }
     else do {
       si_red \<leftarrow> (if sin \<noteq> None then map_option (\<lambda>x. \<not> black x) (deref h sin) else Some False);
       if si_red then do {
         h \<leftarrow> modify h p (\<lambda>x. x\<lparr>black_height := black_height x - (if black x then 1 else 0)\<rparr>);
         pn \<leftarrow> deref h p;
         h \<leftarrow> modify h sin (\<lambda>x. x\<lparr>black_height := black_height x + (1 + (if black pn then 1 else 0))\<rparr>);
         h \<leftarrow> modify h sin (\<lambda>x. x\<lparr>black := black pn\<rparr>);
         h \<leftarrow> modify h p (\<lambda>x. x\<lparr>black := True\<rparr>);
         h \<leftarrow> ConnectParentNoCheck h p sin;
         pn \<leftarrow> deref h p;
         h \<leftarrow> (if left pn = s then do {
                 sinn \<leftarrow> deref h sin;
                 h \<leftarrow> ConnectRight h s (left sinn);
                 sinn \<leftarrow> deref h sin;
                 h \<leftarrow> ConnectLeft h p (right sinn);
                 h \<leftarrow> ConnectRightNoCheck h sin p;
                 ConnectLeftNoCheck h sin s }
               else do {
                 sinn \<leftarrow> deref h sin;
                 h \<leftarrow> ConnectLeft h s (right sinn);
                 sinn \<leftarrow> deref h sin;
                 h \<leftarrow> ConnectRight h p (left sinn);
                 h \<leftarrow> ConnectLeftNoCheck h sin p;
                 ConnectRightNoCheck h sin s });
         h \<leftarrow> PullSize h p;
         h \<leftarrow> PullSize h s;
         h \<leftarrow> PullSizeNoCheck h sin;
         sinn \<leftarrow> deref h sin;
         DecreaseSize h this (parent sinn) }
       else do {
         h \<leftarrow> modify h s (\<lambda>x. x\<lparr>black := False, black_height := black_height x - 1\<rparr>);
         h \<leftarrow> modify h p (\<lambda>x. x\<lparr>black := True\<rparr>);
         DecreaseSize h this p } } }"

text \<open>
  The loop of \<^verbatim>\<open>RemoveRepair_\<close>: the red-sibling case rotates and leaves the loop, the
  all-black case moves the deficiency one level up and goes round again.
\<close>

partial_function (option) RemoveRepair_loop ::
  "'a heap \<Rightarrow> RBTree \<Rightarrow> ptr \<Rightarrow> ptr \<Rightarrow> 'a heap option" where
  "RemoveRepair_loop h this p s = do {
     sn \<leftarrow> deref h s;
     if \<not> black sn then do {
       h \<leftarrow> modify h p (\<lambda>x. x\<lparr>black := False, black_height := black_height x - 1\<rparr>);
       h \<leftarrow> modify h s (\<lambda>x. x\<lparr>black := True, black_height := black_height x + 1\<rparr>);
       h \<leftarrow> ConnectParentNoCheck h p s;
       pn \<leftarrow> deref h p;
       (h, s) \<leftarrow>
         (if left pn = s then do {
            sn \<leftarrow> deref h s;
            h \<leftarrow> ConnectLeft h p (right sn);
            h \<leftarrow> ConnectRightNoCheck h s p;
            h \<leftarrow> PullSize h p;
            h \<leftarrow> PullSize h s;
            h \<leftarrow> modify h p (\<lambda>x. x\<lparr>size_f := size_f x + 1\<rparr>);
            h \<leftarrow> modify h s (\<lambda>x. x\<lparr>size_f := size_f x + 1\<rparr>);
            pn \<leftarrow> deref h p;
            Some (h, left pn) }
          else do {
            sn \<leftarrow> deref h s;
            h \<leftarrow> ConnectRight h p (left sn);
            h \<leftarrow> ConnectLeftNoCheck h s p;
            h \<leftarrow> PullSize h p;
            h \<leftarrow> PullSize h s;
            h \<leftarrow> modify h p (\<lambda>x. x\<lparr>size_f := size_f x + 1\<rparr>);
            h \<leftarrow> modify h s (\<lambda>x. x\<lparr>size_f := size_f x + 1\<rparr>);
            pn \<leftarrow> deref h p;
            Some (h, right pn) });
       RemoveRepair_tail h this p s }
     else do {
       pn \<leftarrow> deref h p;
       c3 \<leftarrow> (if black pn then do {
                b \<leftarrow> black_or_null h (left sn);
                if b then black_or_null h (right sn) else Some False }
              else Some False);
       if c3 then do {
         h \<leftarrow> modify h s (\<lambda>x. x\<lparr>black := False, black_height := black_height x - 1\<rparr>);
         h \<leftarrow> modify h p (\<lambda>x. x\<lparr>size_f := size_f x - 1, black_height := black_height x - 1\<rparr>);
         h \<leftarrow> Pull h p;
         let nd = p;
         ndn \<leftarrow> deref h nd;
         let p = parent ndn;
         if p = head this then Some h
         else do {
           pn \<leftarrow> deref h p;
           let s = (if left pn = nd then right pn else left pn);
           RemoveRepair_loop h this p s } }
       else RemoveRepair_tail h this p s } }"

definition RemoveRepair :: "'a heap \<Rightarrow> RBTree \<Rightarrow> ptr \<Rightarrow> ptr \<Rightarrow> 'a heap option" where
  "RemoveRepair h this p s = (if p = head this then Some h else RemoveRepair_loop h this p s)"

text \<open>\<^verbatim>\<open>swap(Sup_(tmp)->value, Sup_(a)->value)\<close>.\<close>

definition swap_values :: "'a heap \<Rightarrow> ptr \<Rightarrow> ptr \<Rightarrow> 'a heap option" where
  "swap_values h x y = do {
     xn \<leftarrow> deref h x;
     yn \<leftarrow> deref h y;
     h \<leftarrow> modify h x (\<lambda>n. n\<lparr>val := val yn\<rparr>);
     modify h y (\<lambda>n. n\<lparr>val := val xn\<rparr>) }"

definition Remove :: "'a heap \<Rightarrow> RBTree \<Rightarrow> ptr \<Rightarrow> ('a heap \<times> ptr) option" where
  "Remove h this a = do {
     an \<leftarrow> deref h a;
     (h, a) \<leftarrow>
       (if left an \<noteq> None \<and> right an \<noteq> None then do {
          tmp \<leftarrow> Last h (left an);
          h \<leftarrow> swap_values h tmp a;
          Some (h, tmp) }
        else Some (h, a));
     an \<leftarrow> deref h a;
     h \<leftarrow>
       (if \<not> black an then do {
          h \<leftarrow> modify h (parent an) (set_slot a None);
          DecreaseSize h this (parent an) }
        else do {
          let child = (if left an \<noteq> None then left an else right an);
          if child \<noteq> None then do {
            h \<leftarrow> modify h child (\<lambda>x. x\<lparr>black := True, black_height := black_height x + 1\<rparr>);
            h \<leftarrow> ConnectParent h a child;
            cn \<leftarrow> deref h child;
            DecreaseSize h this (parent cn) }
          else do {
            pn \<leftarrow> deref h (parent an);
            if left pn = a then do {
              h \<leftarrow> modify h (parent an) (\<lambda>x. x\<lparr>left := None\<rparr>);
              pn \<leftarrow> deref h (parent an);
              RemoveRepair h this (parent an) (right pn) }
            else do {
              h \<leftarrow> modify h (parent an) (\<lambda>x. x\<lparr>right := None\<rparr>);
              pn \<leftarrow> deref h (parent an);
              RemoveRepair h this (parent an) (left pn) } } });
     Some (h, a) }"

section \<open>Merge and split\<close>

text \<open>
  The descents of \<^verbatim>\<open>Merge_\<close> along the inner edge of the taller tree, to a black node
  of the black height \<open>k\<close> of the other tree.
\<close>

partial_function (option) Merge_descend_left :: "'a heap \<Rightarrow> nat \<Rightarrow> ptr \<Rightarrow> ptr option" where
  "Merge_descend_left h k r = do {
     rn \<leftarrow> deref h r;
     if \<not> black rn \<or> k \<noteq> black_height rn then Merge_descend_left h k (left rn)
     else Some r }"

partial_function (option) Merge_descend_right :: "'a heap \<Rightarrow> nat \<Rightarrow> ptr \<Rightarrow> ptr option" where
  "Merge_descend_right h k l = do {
     ln \<leftarrow> deref h l;
     if \<not> black ln \<or> black_height ln \<noteq> k then Merge_descend_right h k (right ln)
     else Some l }"

definition Merge :: "'a heap \<Rightarrow> ptr \<Rightarrow> ptr \<Rightarrow> ptr \<Rightarrow> ('a heap \<times> ptr) option" where
  "Merge h l m r =
     (if \<not> (l \<noteq> None) then do {
        h \<leftarrow> modify h m (\<lambda>x. x\<lparr>left := None, right := None, size_f := 1\<rparr>);
        if \<not> (r \<noteq> None) then do {
          h \<leftarrow> modify h m (\<lambda>x. x\<lparr>black := True, black_height := 1\<rparr>);
          Some (h, m) }
        else do {
          h \<leftarrow> modify h m (\<lambda>x. x\<lparr>black := False, black_height := 0\<rparr>);
          f \<leftarrow> First h r;
          h \<leftarrow> ConnectLeftNoCheck h f m;
          h \<leftarrow> modify h r (\<lambda>x. x\<lparr>parent := None\<rparr>);
          InsertRepair h m None 1 } }
      else if \<not> (r \<noteq> None) then do {
        h \<leftarrow> modify h m (\<lambda>x. x\<lparr>left := None, right := None, size_f := 1\<rparr>);
        h \<leftarrow> modify h m (\<lambda>x. x\<lparr>black := False, black_height := 0\<rparr>);
        e \<leftarrow> Last h l;
        h \<leftarrow> ConnectRightNoCheck h e m;
        h \<leftarrow> modify h l (\<lambda>x. x\<lparr>parent := None\<rparr>);
        InsertRepair h m None 1 }
      else do {
        ln \<leftarrow> deref h l;
        rn \<leftarrow> deref h r;
        if black_height ln = black_height rn then do {
          h \<leftarrow> ConnectLeftNoCheck h m l;
          h \<leftarrow> ConnectRightNoCheck h m r;
          h \<leftarrow> PullSizeNoCheck h m;
          ln \<leftarrow> deref h l;
          h \<leftarrow> modify h m (\<lambda>x. x\<lparr>black := True, black_height := black_height ln + 1\<rparr>);
          Some (h, m) }
        else if black_height ln < black_height rn then do {
          let ret = r;
          r \<leftarrow> Merge_descend_left h (black_height ln) r;
          h \<leftarrow> ConnectParentNoCheck h r m;
          h \<leftarrow> ConnectLeftNoCheck h m l;
          h \<leftarrow> ConnectRightNoCheck h m r;
          h \<leftarrow> PullSizeNoCheck h m;
          ln \<leftarrow> deref h l;
          h \<leftarrow> modify h m (\<lambda>x. x\<lparr>black := False, black_height := black_height ln\<rparr>);
          h \<leftarrow> modify h ret (\<lambda>x. x\<lparr>parent := None\<rparr>);
          ln \<leftarrow> deref h l;
          InsertRepair h m None (size_f ln + 1) }
        else do {
          let ret = l;
          l \<leftarrow> Merge_descend_right h (black_height rn) l;
          h \<leftarrow> ConnectParentNoCheck h l m;
          h \<leftarrow> ConnectLeftNoCheck h m l;
          h \<leftarrow> ConnectRightNoCheck h m r;
          h \<leftarrow> PullSizeNoCheck h m;
          ln \<leftarrow> deref h l;
          h \<leftarrow> modify h m (\<lambda>x. x\<lparr>black := False, black_height := black_height ln\<rparr>);
          h \<leftarrow> modify h ret (\<lambda>x. x\<lparr>parent := None\<rparr>);
          rn \<leftarrow> deref h r;
          InsertRepair h m None (size_f rn + 1) } })"

partial_function (option) Split_loop ::
  "'a heap \<Rightarrow> RBTree \<Rightarrow> ptr \<Rightarrow> ptr \<Rightarrow> ptr \<Rightarrow> ptr \<Rightarrow> ('a heap \<times> ptr \<times> ptr) option" where
  "Split_loop h this nd p left_acc right_acc =
     (if p \<noteq> head this then do {
        pn \<leftarrow> deref h p;
        let is_left = (left pn = nd);
        let nd = p;
        let p = parent pn;
        if is_left then do {
          ndn \<leftarrow> deref h nd;
          h \<leftarrow> PaintBlack h (right ndn);
          ndn \<leftarrow> deref h nd;
          (h, right_acc) \<leftarrow> Merge h right_acc nd (right ndn);
          Split_loop h this nd p left_acc right_acc }
        else do {
          ndn \<leftarrow> deref h nd;
          h \<leftarrow> PaintBlack h (left ndn);
          ndn \<leftarrow> deref h nd;
          (h, left_acc) \<leftarrow> Merge h (left ndn) nd left_acc;
          Split_loop h this nd p left_acc right_acc } }
      else Some (h, left_acc, right_acc))"

definition Split :: "'a heap \<Rightarrow> RBTree \<Rightarrow> ptr \<Rightarrow> bool \<Rightarrow> ('a heap \<times> ptr \<times> ptr) option" where
  "Split h this nd pivot = do {
     n \<leftarrow> deref h nd;
     let p = parent n;
     let left_acc = left n;
     let right_acc = right n;
     h \<leftarrow> PaintBlack h left_acc;
     h \<leftarrow> PaintBlack h right_acc;
     (h, right_acc) \<leftarrow> (if pivot then Merge h None nd right_acc else Some (h, right_acc));
     Split_loop h this nd p left_acc right_acc }"

section \<open>Search by a monotonic predicate\<close>

partial_function (option) PartitionBound_loop ::
  "'a heap \<Rightarrow> ('a \<Rightarrow> bool) \<Rightarrow> ptr \<Rightarrow> ptr \<Rightarrow> ptr option" where
  "PartitionBound_loop h func now last_f =
     (if now \<noteq> None then do {
        n \<leftarrow> deref h now;
        v \<leftarrow> val n;
        if func v then PartitionBound_loop h func (right n) last_f
        else PartitionBound_loop h func (left n) now }
      else Some last_f)"

definition PartitionBound :: "'a heap \<Rightarrow> RBTree \<Rightarrow> ('a \<Rightarrow> bool) \<Rightarrow> ptr option" where
  "PartitionBound h this func = do {
     hn \<leftarrow> deref h (head this);
     PartitionBound_loop h func (left hn) (head this) }"

section \<open>The public operations\<close>

definition partition_bound :: "'a heap \<Rightarrow> RBTree \<Rightarrow> ('a \<Rightarrow> bool) \<Rightarrow> Iterator option" where
  "partition_bound h this func = do { p \<leftarrow> PartitionBound h this func; Some \<lparr>ptr = p\<rparr> }"

text \<open>\<^verbatim>\<open>operator[]\<close>: the cursor it selects, and the value read through it.\<close>

definition select_at :: "'a heap \<Rightarrow> RBTree \<Rightarrow> nat \<Rightarrow> ptr option" where
  "select_at h this x = do { hn \<leftarrow> deref h (head this); Select h (left hn) x }"

definition value_at :: "'a heap \<Rightarrow> ptr \<Rightarrow> 'a option" where
  "value_at h p = do { n \<leftarrow> deref h p; val n }"

definition push_back :: "'a heap \<Rightarrow> RBTree \<Rightarrow> addr \<Rightarrow> 'a \<Rightarrow> 'a heap option" where
  "push_back h this a v = InsertBefore (GenNode h a v) this (head this) (Some a)"

definition push_front :: "'a heap \<Rightarrow> RBTree \<Rightarrow> addr \<Rightarrow> 'a \<Rightarrow> 'a heap option" where
  "push_front h this a v = do {
     f \<leftarrow> First h (head this);
     InsertBefore (GenNode h a v) this f (Some a) }"

definition insert :: "'a heap \<Rightarrow> RBTree \<Rightarrow> Iterator \<Rightarrow> addr \<Rightarrow> 'a \<Rightarrow> ('a heap \<times> Iterator) option" where
  "insert h this it a v = do {
     h \<leftarrow> InsertBefore (GenNode h a v) this (ptr it) (Some a);
     Some (h, \<lparr>ptr = Some a\<rparr>) }"

text \<open>\<^verbatim>\<open>emplace\<close> builds the value from its arguments and then does what \<^verbatim>\<open>insert\<close> does.\<close>

definition emplace :: "'a heap \<Rightarrow> RBTree \<Rightarrow> Iterator \<Rightarrow> addr \<Rightarrow> 'a \<Rightarrow> ('a heap \<times> Iterator) option" where
  "emplace h this it a v = do {
     h \<leftarrow> InsertBefore (GenNode h a v) this (ptr it) (Some a);
     Some (h, \<lparr>ptr = Some a\<rparr>) }"

definition erase :: "'a heap \<Rightarrow> RBTree \<Rightarrow> Iterator \<Rightarrow> 'a heap option" where
  "erase h this it = do {
     (h, a) \<leftarrow> Remove h this (ptr it);
     FreeNode h a }"

definition pop_back :: "'a heap \<Rightarrow> RBTree \<Rightarrow> 'a heap option" where
  "pop_back h this = do {
     hn \<leftarrow> deref h (head this);
     l \<leftarrow> Last h (left hn);
     (h, a) \<leftarrow> Remove h this l;
     FreeNode h a }"

definition pop_front :: "'a heap \<Rightarrow> RBTree \<Rightarrow> 'a heap option" where
  "pop_front h this = do {
     hn \<leftarrow> deref h (head this);
     f \<leftarrow> First h (left hn);
     (h, a) \<leftarrow> Remove h this f;
     FreeNode h a }"

definition merge :: "'a heap \<Rightarrow> RBTree \<Rightarrow> RBTree \<Rightarrow> ('a heap \<times> RBTree \<times> RBTree) option" where
  "merge h this tree = do {
     te \<leftarrow> empty h tree;
     if te then Some (h, this, tree)
     else do {
       e \<leftarrow> empty h this;
       if e then Some (h, this\<lparr>head := head tree\<rparr>, tree\<lparr>head := head this\<rparr>)
       else do {
         thn \<leftarrow> deref h (head tree);
         hn \<leftarrow> deref h (head this);
         tr \<leftarrow> deref h (left thn);
         r \<leftarrow> deref h (left hn);
         (h, pivot) \<leftarrow>
           (if size_f tr < size_f r then do {
              f \<leftarrow> First h (left thn);
              Remove h tree f }
            else do {
              l \<leftarrow> Last h (left hn);
              Remove h this l });
         hn \<leftarrow> deref h (head this);
         thn \<leftarrow> deref h (head tree);
         (h, m) \<leftarrow> Merge h (left hn) pivot (left thn);
         h \<leftarrow> ConnectLeft h (head this) m;
         h \<leftarrow> modify h (head tree) (\<lambda>x. x\<lparr>left := None\<rparr>);
         Some (h, this, tree) } } }"

text \<open>\<^verbatim>\<open>split\<close> returns a new tree object; \<open>a\<close> is the address of its head.\<close>

definition split :: "'a heap \<Rightarrow> RBTree \<Rightarrow> Iterator \<Rightarrow> addr \<Rightarrow> ('a heap \<times> RBTree) option" where
  "split h this it a =
     (if ptr it = ptr (end_of this) then Some (RBTree_new h a)
      else (case RBTree_new h a of (h, ret) \<Rightarrow> do {
        (h, l, r) \<leftarrow> Split h this (ptr it) True;
        h \<leftarrow> ConnectLeft h (head this) l;
        h \<leftarrow> ConnectLeft h (head ret) r;
        Some (h, ret) }))"

section \<open>Abstraction: the tree a heap region holds\<close>

text \<open>
  A tree of the specification is the shape of a heap region: at every node its address and
  the contents of the fields \<^verbatim>\<open>size\<close>, \<^verbatim>\<open>black_height\<close>, \<^verbatim>\<open>black\<close> and
  \<^verbatim>\<open>value\<close>.  \<open>rep h par t\<close> says that the heap \<open>h\<close> holds \<open>t\<close> below a node
  \<open>par\<close>: each node of \<open>t\<close> is stored at its address with child pointers to the roots
  of its subtrees and a parent pointer back, so parent links are the inverse of child
  links.  \<open>tree_at h hp t\<close> says that the head node at \<open>hp\<close> owns \<open>t\<close>.
\<close>


datatype 'a tree = Lf | Nd "'a tree" addr nat nat bool 'a "'a tree"

fun root :: "'a tree \<Rightarrow> ptr" where
  "root Lf = None"
| "root (Nd l a s k b v r) = Some a"

fun addrs :: "'a tree \<Rightarrow> addr list" where
  "addrs Lf = []"
| "addrs (Nd l a s k b v r) = addrs l @ a # addrs r"

fun vals :: "'a tree \<Rightarrow> 'a list" where
  "vals Lf = []"
| "vals (Nd l a s k b v r) = vals l @ v # vals r"

fun rep :: "'a heap \<Rightarrow> ptr \<Rightarrow> 'a tree \<Rightarrow> bool" where
  "rep h par Lf = True"
| "rep h par (Nd l a s k b v r) =
     (h a = Some \<lparr>left = root l, right = root r, parent = par, size_f = s, black_height = k,
        black = b, val = Some v\<rparr> \<and> rep h (Some a) l \<and> rep h (Some a) r)"

definition tree_at :: "'a heap \<Rightarrow> addr \<Rightarrow> 'a tree \<Rightarrow> bool" where
  "tree_at h hp t = (h hp = Some (Node_new\<lparr>left := root t\<rparr>) \<and> rep h (Some hp) t \<and>
     distinct (addrs t) \<and> hp \<notin> set (addrs t))"

definition release :: "'a heap \<Rightarrow> addr set \<Rightarrow> 'a heap" where
  "release h S = (\<lambda>a. if a \<in> S then None else h a)"


fun sz :: "'a tree \<Rightarrow> nat" where
  "sz Lf = 0"
| "sz (Nd l a s k b v r) = s"

fun bhf :: "'a tree \<Rightarrow> nat" where
  "bhf Lf = 0"
| "bhf (Nd l a s k b v r) = k"

fun blk :: "'a tree \<Rightarrow> bool" where
  "blk Lf = True"
| "blk (Nd l a s k b v r) = b"

fun inv_size :: "'a tree \<Rightarrow> bool" where
  "inv_size Lf = True"
| "inv_size (Nd l a s k b v r) = (s = sz l + sz r + 1 \<and> inv_size l \<and> inv_size r)"

fun inv_red :: "'a tree \<Rightarrow> bool" where
  "inv_red Lf = True"
| "inv_red (Nd l a s k b v r) = ((b \<or> blk l \<and> blk r) \<and> inv_red l \<and> inv_red r)"

fun inv_bh :: "'a tree \<Rightarrow> bool" where
  "inv_bh Lf = True"
| "inv_bh (Nd l a s k b v r) =
     (bhf l + (if b then 1 else 0) = k \<and> bhf r + (if b then 1 else 0) = k \<and> inv_bh l \<and> inv_bh r)"

definition cursor_at :: "addr \<Rightarrow> 'a tree \<Rightarrow> nat \<Rightarrow> ptr" where
  "cursor_at hp t i = (if i < length (addrs t) then Some (addrs t ! i) else Some hp)"

definition partitioned :: "('a \<Rightarrow> bool) \<Rightarrow> 'a list \<Rightarrow> bool" where
  "partitioned f vs = (filter f (dropWhile f vs) = [])"

datatype 'a frame = FL addr nat nat bool 'a "'a tree" | FR "'a tree" addr nat nat bool 'a

fun faddr :: "'a frame \<Rightarrow> addr" where
  "faddr (FL a s k b v r) = a"
| "faddr (FR l a s k b v) = a"

fun plug1 :: "'a frame \<Rightarrow> 'a tree \<Rightarrow> 'a tree" where
  "plug1 (FL a s k b v r) t = Nd t a s k b v r"
| "plug1 (FR l a s k b v) t = Nd l a s k b v t"

fun plug :: "'a frame list \<Rightarrow> 'a tree \<Rightarrow> 'a tree" where
  "plug [] t = t"
| "plug (f # c) t = plug c (plug1 f t)"

fun cpar :: "ptr \<Rightarrow> 'a frame list \<Rightarrow> ptr" where
  "cpar tp [] = tp"
| "cpar tp (f # c) = Some (faddr f)"

fun repc :: "'a heap \<Rightarrow> ptr \<Rightarrow> 'a frame list \<Rightarrow> ptr \<Rightarrow> bool" where
  "repc h tp [] p = True"
| "repc h tp (FL a s k b v r # c) p =
     (h a = Some \<lparr>left = p, right = root r, parent = cpar tp c, size_f = s, black_height = k,
        black = b, val = Some v\<rparr> \<and> rep h (Some a) r \<and> repc h tp c (Some a))"
| "repc h tp (FR l a s k b v # c) p =
     (h a = Some \<lparr>left = root l, right = p, parent = cpar tp c, size_f = s, black_height = k,
        black = b, val = Some v\<rparr> \<and> rep h (Some a) l \<and> repc h tp c (Some a))"

fun cpre :: "'a frame list \<Rightarrow> addr list" where
  "cpre [] = []"
| "cpre (FL a s k b v r # c) = cpre c"
| "cpre (FR l a s k b v # c) = cpre c @ addrs l @ [a]"

fun cpost :: "'a frame list \<Rightarrow> addr list" where
  "cpost [] = []"
| "cpost (FL a s k b v r # c) = a # addrs r @ cpost c"
| "cpost (FR l a s k b v # c) = cpost c"

fun vpre :: "'a frame list \<Rightarrow> 'a list" where
  "vpre [] = []"
| "vpre (FL a s k b v r # c) = vpre c"
| "vpre (FR l a s k b v # c) = vpre c @ vals l @ [v]"

fun vpost :: "'a frame list \<Rightarrow> 'a list" where
  "vpost [] = []"
| "vpost (FL a s k b v r # c) = v # vals r @ vpost c"
| "vpost (FR l a s k b v # c) = vpost c"

fun sibling :: "'a frame \<Rightarrow> 'a tree" where
  "sibling (FL a s k b v r) = r"
| "sibling (FR l a s k b v) = l"

fun is_FR :: "'a frame \<Rightarrow> bool" where
  "is_FR (FL a s k b v r) = False"
| "is_FR (FR l a s k b v) = True"

fun climbR :: "addr \<Rightarrow> 'a frame list \<Rightarrow> addr \<times> 'a frame list" where
  "climbR a [] = (a, [])"
| "climbR a (FL a' s k b v r # c) = (a, FL a' s k b v r # c)"
| "climbR a (FR l a' s k b v # c) = climbR a' c"

fun plugR :: "'a frame list \<Rightarrow> 'a tree \<Rightarrow> 'a tree" where
  "plugR [] t = t"
| "plugR (FL a' s k b v r # c) t = t"
| "plugR (FR l a' s k b v # c) t = plugR c (Nd l a' s k b v t)"

fun climbL :: "addr \<Rightarrow> 'a frame list \<Rightarrow> addr \<times> 'a frame list" where
  "climbL a [] = (a, [])"
| "climbL a (FR l a' s k b v # c) = (a, FR l a' s k b v # c)"
| "climbL a (FL a' s k b v r # c) = climbL a' c"

fun plugL :: "'a frame list \<Rightarrow> 'a tree \<Rightarrow> 'a tree" where
  "plugL [] t = t"
| "plugL (FR l a' s k b v # c) t = t"
| "plugL (FL a' s k b v r # c) t = plugL c (Nd t a' s k b v r)"

fun raddr :: "'a tree \<Rightarrow> addr" where
  "raddr Lf = 0"
| "raddr (Nd l a s k b v r) = a"





subsection \<open>Example heaps\<close>

text \<open>
  Two one-element trees side by side: the sequence \<open>[1]\<close> under the head at address 0
  and the sequence \<open>[2]\<close> under the head at address 2.
\<close>

definition ex_t1 :: "nat tree" where
  "ex_t1 = Nd Lf 1 1 1 True 1 Lf"

definition ex_t2 :: "nat tree" where
  "ex_t2 = Nd Lf 3 1 1 True 2 Lf"

definition ex_heap :: "nat heap" where
  "ex_heap = (\<lambda>a. None)
     (0 \<mapsto> Node_new\<lparr>left := Some 1\<rparr>,
      1 \<mapsto> \<lparr>left = None, right = None, parent = Some 0, size_f = 1, black_height = 1,
             black = True, val = Some 1\<rparr>,
      2 \<mapsto> Node_new\<lparr>left := Some 3\<rparr>,
      3 \<mapsto> \<lparr>left = None, right = None, parent = Some 2, size_f = 1, black_height = 1,
             black = True, val = Some 2\<rparr>)"

section \<open>Basic facts about the abstraction\<close>

lemma root_None [simp]: "root t = None \<longleftrightarrow> t = Lf"
  by (cases t) auto

lemma rep_upd [simp]: "a \<notin> set (addrs t) \<Longrightarrow> rep (h(a := x)) par t = rep h par t"
  by (induction t arbitrary: par) auto

lemma rep_release [simp]: "S \<inter> set (addrs t) = {} \<Longrightarrow> rep (release h S) par t = rep h par t"
  by (induction t arbitrary: par) (auto simp: release_def)

lemma release_empty [simp]: "release h {} = h"
  by (simp add: release_def)

lemma ClearTree_loop_subtree:
  assumes "rep h par t" "distinct (addrs t)" "t \<noteq> Lf" "\<forall>a \<in> set (addrs t). nd \<noteq> Some a"
  shows "ClearTree_loop h nd (root t) = ClearTree_loop (release h (set (addrs t))) nd par"
  using assms
proof (induction t arbitrary: h par)
  case Lf
  then show ?case by simp
next
  case (Nd l a s k b v r)
  let ?n = "\<lparr>left = root l, right = root r, parent = par, size_f = s, black_height = k,
        black = b, val = Some v\<rparr>"
  have ha: "h a = Some ?n" using Nd.prems by simp
  define h1 where "h1 = (release h (set (addrs l)))(a \<mapsto> ?n\<lparr>left := None\<rparr>)"
  have s1: "ClearTree_loop h nd (Some a) = ClearTree_loop h1 nd (Some a)"
  proof (cases l)
    case Lf
    then show ?thesis using ha by (simp add: h1_def fun_upd_idem)
  next
    case N: (Nd ll la ls lk lb lv lr)
    have "ClearTree_loop h nd (Some a) = ClearTree_loop (h(a \<mapsto> ?n\<lparr>left := None\<rparr>)) nd (root l)"
      using ha N by (subst ClearTree_loop.simps) (simp add: deref_def modify_def)
    also have "\<dots> = ClearTree_loop (release (h(a \<mapsto> ?n\<lparr>left := None\<rparr>)) (set (addrs l))) nd (Some a)"
      using Nd.prems N by (subst Nd.IH(1)[of "h(a \<mapsto> ?n\<lparr>left := None\<rparr>)" "Some a"]) auto
    also have "release (h(a \<mapsto> ?n\<lparr>left := None\<rparr>)) (set (addrs l)) = h1"
      using Nd.prems by (auto simp: h1_def release_def fun_eq_iff)
    finally show ?thesis .
  qed
  have h1a: "h1 a = Some (?n\<lparr>left := None\<rparr>)" by (simp add: h1_def)
  have rep1: "rep h1 (Some a) r" using Nd.prems by (auto simp: h1_def)
  define h2 where "h2 = (release h1 (set (addrs r)))(a \<mapsto> ?n\<lparr>left := None, right := None\<rparr>)"
  have s2: "ClearTree_loop h1 nd (Some a) = ClearTree_loop h2 nd (Some a)"
  proof (cases r)
    case Lf
    then show ?thesis using h1a by (simp add: h2_def fun_upd_idem)
  next
    case N: (Nd rl ra rs rk rb rv rr)
    have "ClearTree_loop h1 nd (Some a) = ClearTree_loop (h1(a \<mapsto> ?n\<lparr>left := None, right := None\<rparr>)) nd (root r)"
      using h1a N by (subst ClearTree_loop.simps) (simp add: deref_def modify_def)
    also have "\<dots> = ClearTree_loop (release (h1(a \<mapsto> ?n\<lparr>left := None, right := None\<rparr>)) (set (addrs r))) nd (Some a)"
      using Nd.prems N rep1 by (subst Nd.IH(2)[of "h1(a \<mapsto> ?n\<lparr>left := None, right := None\<rparr>)" "Some a"]) auto
    also have "release (h1(a \<mapsto> ?n\<lparr>left := None, right := None\<rparr>)) (set (addrs r)) = h2"
      using Nd.prems by (auto simp: h2_def release_def fun_eq_iff)
    finally show ?thesis .
  qed
  have s3: "ClearTree_loop h2 nd (Some a) = ClearTree_loop (h2(a := None)) nd par"
    using Nd.prems by (subst ClearTree_loop.simps) (auto simp: h2_def deref_def FreeNode_def)
  have "h2(a := None) = release h (set (addrs (Nd l a s k b v r)))"
    by (auto simp: h2_def h1_def release_def fun_eq_iff)
  with s1 s2 s3 show ?case by simp
qed

lemma ClearTree_tree_at:
  assumes "tree_at h hp t"
  shows "ClearTree h (Some hp) = Some ((release h (set (addrs t)))(hp \<mapsto> Node_new))"
proof (cases t)
  case Lf
  then show ?thesis using assms
    by (subst ClearTree_def, subst ClearTree_loop.simps)
       (auto simp: tree_at_def deref_def Node_new_def fun_upd_idem)
next
  case N: (Nd l a s k b v r)
  have "ClearTree h (Some hp) = ClearTree_loop (h(hp \<mapsto> Node_new)) (Some hp) (root t)"
    using assms N unfolding ClearTree_def
    by (subst ClearTree_loop.simps) (simp add: tree_at_def deref_def modify_def Node_new_def)
  also have "\<dots> = ClearTree_loop (release (h(hp \<mapsto> Node_new)) (set (addrs t))) (Some hp) (Some hp)"
    using assms N by (subst ClearTree_loop_subtree[of "h(hp \<mapsto> Node_new)" "Some hp" t]) (auto simp: tree_at_def)
  also have "release (h(hp \<mapsto> Node_new)) (set (addrs t)) = (release h (set (addrs t)))(hp \<mapsto> Node_new)"
    using assms by (auto simp: release_def fun_eq_iff tree_at_def)
  also have "ClearTree_loop \<dots> (Some hp) (Some hp) = Some \<dots>"
    by (subst ClearTree_loop.simps) (simp add: deref_def Node_new_def)
  finally show ?thesis .
qed

lemma CopyTree_self_empty:
  assumes "h hp = Some Node_new"
  shows "CopyTree h fresh (Some hp) (Some hp) = Some h"
  using assms unfolding CopyTree_def
  by (subst CopyTree_loop.simps) (simp add: deref_def Node_new_def)


lemma ex_heap_t1: "tree_at ex_heap 0 ex_t1"
  by (simp add: tree_at_def ex_heap_def ex_t1_def Node_new_def)

lemma ex_heap_t2: "tree_at ex_heap 2 ex_t2"
  by (simp add: tree_at_def ex_heap_def ex_t2_def Node_new_def)

lemma tree_at_size_of_Lf: "tree_at h hp Lf \<Longrightarrow> size_of h \<lparr>head = Some hp\<rparr> = Some 0"
  by (simp add: tree_at_def size_of_def deref_def Size_def Node_new_def)

lemma tree_at_empty: "tree_at h hp t \<Longrightarrow> empty h \<lparr>head = Some hp\<rparr> = Some (t = Lf)"
  by (simp add: tree_at_def empty_def deref_def Node_new_def)

lemma tree_at_fresh:
  assumes "tree_at h hp t" "h a = None"
  shows "tree_at (h(a \<mapsto> n)) hp t" "a \<noteq> hp" "a \<notin> set (addrs t)"
proof -
  have "rep h par t \<Longrightarrow> a \<notin> set (addrs t)" for par
    using assms(2) by (induction t arbitrary: par) auto
  then show *: "a \<notin> set (addrs t)" using assms(1) by (auto simp: tree_at_def)
  show **: "a \<noteq> hp" using assms by (auto simp: tree_at_def)
  show "tree_at (h(a \<mapsto> n)) hp t" using assms(1) * ** by (auto simp: tree_at_def)
qed

section \<open>Cursors in boolean context\<close>

text \<open>
  C9.  For a mutable and for a read-only cursor, the conversion to \<^verbatim>\<open>bool\<close> is true
  exactly when the cursor holds no node: it coincides with \<^verbatim>\<open>is_null()\<close>, and a
  cursor that points to a node converts to false.
\<close>

theorem operator_bool_is_null:
  "operator_bool it = is_null it \<and> operator_bool it = (ptr it = None) \<and>
   const_operator_bool cit = const_is_null cit \<and> const_operator_bool cit = (cptr cit = None) \<and>
   operator_bool \<lparr>ptr = Some a\<rparr> = False \<and> const_operator_bool \<lparr>cptr = Some a\<rparr> = False \<and>
   const_operator_bool (ConstIterator_of it) = operator_bool it"
  by (simp add: operator_bool_def is_null_def const_operator_bool_def const_is_null_def
      ConstIterator_of_def)

section \<open>Moving a tree\<close>

text \<open>
  C8, as far as it holds.  Move construction builds a fresh head for the new object and
  exchanges the two head pointers: the new object owns every node of the source, and the
  source owns the fresh head, an empty tree of size 0 that can be used again.  Move
  assignment only exchanges the two head pointers: the destination owns every node of
  the source, and the source owns what the destination held before, so the source is
  empty exactly when the destination was empty.
\<close>

theorem move_transfers:
  assumes "tree_at h hs ts" and "h a = None" and "tree_at h hq td"
  shows "RBTree_move h a \<lparr>head = Some hs\<rparr> = (h(a \<mapsto> Node_new), \<lparr>head = Some hs\<rparr>, \<lparr>head = Some a\<rparr>) \<and>
         tree_at (h(a \<mapsto> Node_new)) hs ts \<and>
         tree_at (h(a \<mapsto> Node_new)) a Lf \<and>
         size_of (h(a \<mapsto> Node_new)) \<lparr>head = Some a\<rparr> = Some 0 \<and>
         empty (h(a \<mapsto> Node_new)) \<lparr>head = Some a\<rparr> = Some True \<and>
         move_assign \<lparr>head = Some hq\<rparr> \<lparr>head = Some hs\<rparr> = (\<lparr>head = Some hs\<rparr>, \<lparr>head = Some hq\<rparr>) \<and>
         empty h \<lparr>head = Some hq\<rparr> = Some (td = Lf)"
proof -
  have m: "RBTree_move h a \<lparr>head = Some hs\<rparr> = (h(a \<mapsto> Node_new), \<lparr>head = Some hs\<rparr>, \<lparr>head = Some a\<rparr>)"
    by (simp add: RBTree_move_def Init_def)
  have t: "tree_at (h(a \<mapsto> Node_new)) hs ts"
    using assms(1,2) by (rule tree_at_fresh)
  have e: "tree_at (h(a \<mapsto> Node_new)) a Lf"
    by (simp add: tree_at_def Node_new_def)
  have s: "size_of (h(a \<mapsto> Node_new)) \<lparr>head = Some a\<rparr> = Some 0"
    using e by (rule tree_at_size_of_Lf)
  have y: "empty (h(a \<mapsto> Node_new)) \<lparr>head = Some a\<rparr> = Some True"
    using tree_at_empty[OF e] by simp
  have "move_assign \<lparr>head = Some hq\<rparr> \<lparr>head = Some hs\<rparr> = (\<lparr>head = Some hs\<rparr>, \<lparr>head = Some hq\<rparr>)"
    by (simp add: move_assign_def)
  with m t e s y tree_at_empty[OF assms(3)] show ?thesis by simp
qed

theorem move_transfers_witness:
  "RBTree_move ex_heap 4 \<lparr>head = Some 2\<rparr> = (ex_heap(4 \<mapsto> Node_new), \<lparr>head = Some 2\<rparr>, \<lparr>head = Some 4\<rparr>) \<and>
   tree_at (ex_heap(4 \<mapsto> Node_new)) 2 ex_t2 \<and>
   tree_at (ex_heap(4 \<mapsto> Node_new)) 4 Lf \<and>
   size_of (ex_heap(4 \<mapsto> Node_new)) \<lparr>head = Some 4\<rparr> = Some 0 \<and>
   empty (ex_heap(4 \<mapsto> Node_new)) \<lparr>head = Some 4\<rparr> = Some True \<and>
   move_assign \<lparr>head = Some 0\<rparr> \<lparr>head = Some 2\<rparr> = (\<lparr>head = Some 2\<rparr>, \<lparr>head = Some 0\<rparr>) \<and>
   empty ex_heap \<lparr>head = Some 0\<rparr> = Some (ex_t1 = Lf)"
proof -
  have f: "ex_heap 4 = None" by (simp add: ex_heap_def)
  show ?thesis
    using move_transfers[OF ex_heap_t2 f ex_heap_t1] by simp
qed

text \<open>
  The claim as the specification states it fails for move assignment: with \<open>[1]\<close> in the
  destination and \<open>[2]\<close> in the source, the source holds \<open>[1]\<close> afterwards: it is
  not empty and its size is 1.
\<close>

theorem move_assign_source_not_empty:
  "tree_at ex_heap 0 ex_t1 \<and> tree_at ex_heap 2 ex_t2 \<and>
   snd (move_assign \<lparr>head = Some 0\<rparr> \<lparr>head = Some 2\<rparr>) = \<lparr>head = Some 0\<rparr> \<and>
   empty ex_heap (snd (move_assign \<lparr>head = Some 0\<rparr> \<lparr>head = Some 2\<rparr>)) = Some False \<and>
   size_of ex_heap (snd (move_assign \<lparr>head = Some 0\<rparr> \<lparr>head = Some 2\<rparr>)) = Some 1"
  using ex_heap_t1 ex_heap_t2
  by (simp add: move_assign_def empty_def size_of_def deref_def Size_def ex_heap_def Node_new_def)

section \<open>Copy assignment of a tree to itself\<close>

text \<open>
  C10.  For every tree, copy assignment of the object to itself first clears it, which
  frees every value node and leaves the head without a child, and then copies from the
  same, now empty, object, which does nothing: the object is empty afterwards, whatever
  it held.
\<close>

theorem copy_assign_self_empties:
  assumes "tree_at h hp t"
  shows "\<exists>h'. ClearTree h (Some hp) = Some h' \<and>
           CopyTree h' fresh (Some hp) (Some hp) = Some h' \<and>
           copy_assign h fresh \<lparr>head = Some hp\<rparr> \<lparr>head = Some hp\<rparr> = Some (h', \<lparr>head = Some hp\<rparr>) \<and>
           tree_at h' hp Lf \<and> empty h' \<lparr>head = Some hp\<rparr> = Some True \<and>
           size_of h' \<lparr>head = Some hp\<rparr> = Some 0 \<and>
           (\<forall>a \<in> set (addrs t). h' a = None)"
proof -
  let ?h = "(release h (set (addrs t)))(hp \<mapsto> Node_new)"
  have c: "ClearTree h (Some hp) = Some ?h"
    using assms by (rule ClearTree_tree_at)
  have k: "CopyTree ?h fresh (Some hp) (Some hp) = Some ?h"
    by (rule CopyTree_self_empty) simp
  have e: "tree_at ?h hp Lf"
    by (simp add: tree_at_def Node_new_def)
  have "\<forall>a \<in> set (addrs t). ?h a = None"
    using assms by (auto simp: release_def tree_at_def)
  with c k e tree_at_size_of_Lf[OF e] tree_at_empty[OF e] show ?thesis
    by (simp add: copy_assign_def)
qed

theorem copy_assign_self_empties_witness:
  "\<exists>h'. ClearTree ex_heap (Some 0) = Some h' \<and>
     CopyTree h' [7, 8] (Some 0) (Some 0) = Some h' \<and>
     copy_assign ex_heap [7, 8] \<lparr>head = Some 0\<rparr> \<lparr>head = Some 0\<rparr> = Some (h', \<lparr>head = Some 0\<rparr>) \<and>
     tree_at h' 0 Lf \<and> empty h' \<lparr>head = Some 0\<rparr> = Some True \<and>
     size_of h' \<lparr>head = Some 0\<rparr> = Some 0 \<and>
     (\<forall>a \<in> set (addrs ex_t1). h' a = None)"
  using copy_assign_self_empties[OF ex_heap_t1] by simp

lemma length_vals [simp]: "length (vals t) = length (addrs t)"
  by (induction t) auto

lemma partitioned_true:
  assumes "partitioned f (xs @ v # ys)" "f v"
  shows "takeWhile f (xs @ v # ys) = xs @ v # takeWhile f ys" "partitioned f ys"
proof -
  have *: "\<forall>x \<in> set xs. f x"
  proof (rule ccontr)
    assume "\<not> (\<forall>x \<in> set xs. f x)"
    then obtain x where x: "x \<in> set xs" "\<not> f x" by auto
    then have "dropWhile f (xs @ v # ys) = dropWhile f xs @ v # ys"
      by (simp add: dropWhile_append1)
    with assms show False by (auto simp: partitioned_def filter_empty_conv)
  qed
  then show "takeWhile f (xs @ v # ys) = xs @ v # takeWhile f ys"
    using assms(2) by (simp add: takeWhile_append2)
  from * assms show "partitioned f ys"
    by (simp add: partitioned_def dropWhile_append2)
qed

lemma partitioned_false:
  assumes "partitioned f (xs @ v # ys)" "\<not> f v"
  shows "takeWhile f (xs @ v # ys) = takeWhile f xs" "partitioned f xs"
proof -
  show "takeWhile f (xs @ v # ys) = takeWhile f xs"
  proof (cases "\<forall>x \<in> set xs. f x")
    case True
    then have "takeWhile f (xs @ v # ys) = xs @ takeWhile f (v # ys)"
      by (simp add: takeWhile_append2)
    also have "\<dots> = xs" using assms(2) by simp
    also have "xs = takeWhile f xs" using True by (metis takeWhile_eq_all_conv)
    finally show ?thesis .
  next
    case False
    then show ?thesis by (auto simp: takeWhile_append1)
  qed
  show "partitioned f xs"
  proof (cases "\<forall>x \<in> set xs. f x")
    case True
    then have "dropWhile f xs = []" by simp
    then show ?thesis unfolding partitioned_def by (simp only: filter.simps)
  next
    case False
    then obtain x where x: "x \<in> set xs" "\<not> f x" by auto
    then have "dropWhile f (xs @ v # ys) = dropWhile f xs @ v # ys"
      by (simp add: dropWhile_append1)
    with assms show ?thesis by (simp add: partitioned_def)
  qed
qed

lemma PartitionBound_loop_rep:
  assumes "rep h par t" "partitioned f (vals t)"
  shows "PartitionBound_loop h f (root t) lst =
     Some (if length (takeWhile f (vals t)) < length (addrs t)
           then Some (addrs t ! length (takeWhile f (vals t))) else lst)"
  using assms
proof (induction t arbitrary: par lst)
  case Lf
  then show ?case by (subst PartitionBound_loop.simps) simp
next
  case (Nd l a s k b v r)
  have ha: "h a = Some \<lparr>left = root l, right = root r, parent = par, size_f = s, black_height = k,
        black = b, val = Some v\<rparr>" using Nd.prems by simp
  show ?case
  proof (cases "f v")
    case True
    note p = partitioned_true[OF Nd.prems(2)[simplified] True]
    have "PartitionBound_loop h f (Some a) lst = PartitionBound_loop h f (root r) lst"
      using ha True by (subst PartitionBound_loop.simps) (simp add: deref_def)
    also have "\<dots> = Some (if length (takeWhile f (vals r)) < length (addrs r)
           then Some (addrs r ! length (takeWhile f (vals r))) else lst)"
      using Nd.prems p by (intro Nd.IH(2)[of "Some a"]) auto
    finally show ?thesis using p(1) by (auto simp: nth_append)
  next
    case False
    note p = partitioned_false[OF Nd.prems(2)[simplified] False]
    have le: "length (takeWhile f (vals l)) \<le> length (addrs l)"
      using length_takeWhile_le[of f "vals l"] by simp
    have "PartitionBound_loop h f (Some a) lst = PartitionBound_loop h f (root l) (Some a)"
      using ha False by (subst PartitionBound_loop.simps) (simp add: deref_def)
    also have "\<dots> = Some (if length (takeWhile f (vals l)) < length (addrs l)
           then Some (addrs l ! length (takeWhile f (vals l))) else Some a)"
      using Nd.prems p by (intro Nd.IH(1)[of "Some a"]) auto
    finally show ?thesis using p(1) le by (auto simp: nth_append)
  qed
qed

section \<open>Search by a monotonic predicate\<close>

text \<open>
  C6.  When the predicate is monotonic over the in-order values (true on a prefix, false
  from there on), \<^verbatim>\<open>partition_bound\<close> returns the cursor at the first position whose
  value makes the predicate false; when the predicate holds at every position this is the
  end cursor, the head.  Position \<open>i\<close> is before the \<open>k\<close> returned exactly when the
  predicate holds at \<open>i\<close>.
\<close>

theorem partition_bound_first_false:
  assumes "tree_at h hp t" "partitioned f (vals t)"
  shows "partition_bound h \<lparr>head = Some hp\<rparr> f = Some \<lparr>ptr = cursor_at hp t (length (takeWhile f (vals t)))\<rparr> \<and>
         (\<forall>i < length (vals t). f (vals t ! i) = (i < length (takeWhile f (vals t)))) \<and>
         ((\<forall>v \<in> set (vals t). f v) \<longrightarrow> partition_bound h \<lparr>head = Some hp\<rparr> f = Some (end_of \<lparr>head = Some hp\<rparr>))"
proof -
  let ?k = "length (takeWhile f (vals t))"
  have 1: "partition_bound h \<lparr>head = Some hp\<rparr> f = Some \<lparr>ptr = cursor_at hp t ?k\<rparr>"
    using assms PartitionBound_loop_rep[of h "Some hp" t f "Some hp"]
    by (simp add: partition_bound_def PartitionBound_def tree_at_def deref_def cursor_at_def Node_new_def)
  have 2: "f (vals t ! i) = (i < ?k)" if "i < length (vals t)" for i
  proof (cases "i < ?k")
    case True
    then show ?thesis
      using nth_mem[of i "takeWhile f (vals t)"] set_takeWhileD[of _ f "vals t"]
      by (auto simp: takeWhile_nth)
  next
    case False
    define tw dw where "tw = takeWhile f (vals t)" and "dw = dropWhile f (vals t)"
    have v: "vals t = tw @ dw" by (simp add: tw_def dw_def)
    have k: "?k = length tw" by (simp add: tw_def)
    have "i - length tw < length dw" using that False v k by (metis add_diff_inverse_nat length_append nat_add_left_cancel_less)
    moreover have "vals t ! i = dw ! (i - length tw)" using False k v by (metis nth_append)
    ultimately have "vals t ! i \<in> set dw" by (metis nth_mem)
    then show ?thesis using assms(2) False by (auto simp: partitioned_def filter_empty_conv dw_def)
  qed
  have 3: "partition_bound h \<lparr>head = Some hp\<rparr> f = Some (end_of \<lparr>head = Some hp\<rparr>)" if "\<forall>v \<in> set (vals t). f v"
  proof -
    have "?k = length (addrs t)" using that by (metis takeWhile_eq_all_conv length_vals)
    then show ?thesis using 1 by (simp add: cursor_at_def end_of_def)
  qed
  from 1 2 3 show ?thesis by blast
qed


theorem partition_bound_first_false_witness:
  "tree_at ex_heap 0 ex_t1 \<and> partitioned (\<lambda>v. v < 1) (vals ex_t1) \<and>
   partition_bound ex_heap \<lparr>head = Some 0\<rparr> (\<lambda>v. v < 1) = Some \<lparr>ptr = Some 1\<rparr> \<and>
   vals ex_t1 ! 0 = 1"
proof -
  have p: "partitioned (\<lambda>v. v < 1) (vals ex_t1)"
    by (simp add: partitioned_def ex_t1_def)
  have "cursor_at 0 ex_t1 (length (takeWhile (\<lambda>v. v < 1) (vals ex_t1))) = Some 1" "vals ex_t1 ! 0 = 1"
    by (simp_all add: cursor_at_def ex_t1_def)
  with partition_bound_first_false[OF ex_heap_t1 p] ex_heap_t1 p show ?thesis by simp
qed

lemma plug_append: "plug (c1 @ c2) t = plug c2 (plug c1 t)"
  by (induction c1 arbitrary: t) auto

lemma root_plug1 [simp]: "root (plug1 f t) = Some (faddr f)"
  by (cases f) auto

lemma rep_plug: "rep h tp (plug c t) \<longleftrightarrow> repc h tp c (root t) \<and> rep h (cpar tp c) t"
proof (induction c arbitrary: t)
  case Nil
  then show ?case by simp
next
  case (Cons f c)
  then show ?case by (cases f; cases c) auto
qed

lemma addrs_plug: "addrs (plug c t) = cpre c @ addrs t @ cpost c"
proof (induction c arbitrary: t)
  case Nil
  then show ?case by simp
next
  case (Cons f c)
  then show ?case by (cases f) auto
qed

lemma vals_plug: "vals (plug c t) = vpre c @ vals t @ vpost c"
proof (induction c arbitrary: t)
  case Nil
  then show ?case by simp
next
  case (Cons f c)
  then show ?case by (cases f) auto
qed

lemma cpre_append: "cpre (c1 @ c2) = cpre c2 @ cpre c1"
proof (induction c1)
  case Nil
  then show ?case by simp
next
  case (Cons f c)
  then show ?case by (cases f) auto
qed

lemma plug_decompose:
  "i < length (addrs t) \<Longrightarrow>
   \<exists>c l s k b v r. t = plug c (Nd l (addrs t ! i) s k b v r) \<and> length (cpre c) + length (addrs l) = i"
proof (induction t arbitrary: i)
  case Lf
  then show ?case by simp
next
  case (Nd l a s k b v r)
  consider "i < length (addrs l)" | "i = length (addrs l)" | "i > length (addrs l)"
    by linarith
  then show ?case
  proof cases
    case 1
    from Nd.IH(1)[OF 1] obtain c l' s' k' b' v' r' where
      "l = plug c (Nd l' (addrs l ! i) s' k' b' v' r')" "length (cpre c) + length (addrs l') = i"
      by blast
    then have "Nd l a s k b v r = plug (c @ [FL a s k b v r]) (Nd l' (addrs (Nd l a s k b v r) ! i) s' k' b' v' r')
       \<and> length (cpre (c @ [FL a s k b v r])) + length (addrs l') = i"
      using 1 by (simp add: plug_append cpre_append nth_append)
    then show ?thesis by blast
  next
    case 2
    then have "Nd l a s k b v r = plug [] (Nd l (addrs (Nd l a s k b v r) ! i) s k b v r)
       \<and> length (cpre []) + length (addrs l) = i"
      by (simp add: nth_append)
    then show ?thesis by blast
  next
    case 3
    define j where "j = i - length (addrs l) - 1"
    have j: "j < length (addrs r)" "i = length (addrs l) + 1 + j"
      using 3 Nd.prems by (auto simp: j_def)
    from Nd.IH(2)[OF j(1)] obtain c l' s' k' b' v' r' where
      "r = plug c (Nd l' (addrs r ! j) s' k' b' v' r')" "length (cpre c) + length (addrs l') = j"
      by blast
    then have "Nd l a s k b v r = plug (c @ [FR l a s k b v]) (Nd l' (addrs (Nd l a s k b v r) ! i) s' k' b' v' r')
       \<and> length (cpre (c @ [FR l a s k b v])) + length (addrs l') = i"
      using j by (simp add: plug_append cpre_append nth_append)
    then show ?thesis by blast
  qed
qed

lemma inv_size_sz: "inv_size t \<Longrightarrow> sz t = length (addrs t)"
  by (induction t) auto

lemma Size_rep: "rep h par t \<Longrightarrow> Size h (root t) = Some (sz t)"
  by (cases t) (auto simp: Size_def deref_def)

lemma inv_size_plug: "inv_size (plug c t) \<Longrightarrow> inv_size t \<and> (\<forall>f \<in> set c. inv_size (sibling f))"
proof (induction c arbitrary: t)
  case Nil
  then show ?case by simp
next
  case (Cons f c)
  then show ?case by (cases f) fastforce+
qed

lemma Select_rep:
  assumes "rep h par t" "inv_size t" "x < sz t"
  shows "Select h (root t) x = Some (Some (addrs t ! x))"
  using assms
proof (induction t arbitrary: par x)
  case Lf
  then show ?case by simp
next
  case (Nd l a s k b v r)
  have ha: "h a = Some \<lparr>left = root l, right = root r, parent = par, size_f = s, black_height = k,
        black = b, val = Some v\<rparr>" using Nd.prems by simp
  have sl: "Size h (root l) = Some (sz l)" "sz l = length (addrs l)" "sz r = length (addrs r)"
    using Nd.prems Size_rep[of h "Some a" l] by (auto simp: inv_size_sz)
  consider "x < sz l" | "x = sz l" | "x > sz l" by linarith
  then show ?case
  proof cases
    case 1
    have "Select h (Some a) x = Select h (root l) x"
      using ha sl 1 by (subst Select.simps) (simp add: deref_def)
    also have "\<dots> = Some (Some (addrs l ! x))"
      using Nd.prems 1 by (intro Nd.IH(1)[of "Some a"]) auto
    finally show ?thesis using 1 sl by (simp add: nth_append)
  next
    case 2
    then show ?thesis using ha sl by (subst Select.simps) (simp add: deref_def nth_append)
  next
    case 3
    have "Select h (Some a) x = Select h (root r) (x - (sz l + 1))"
      using ha sl 3 by (subst Select.simps) (simp add: deref_def)
    also have "\<dots> = Some (Some (addrs r ! (x - (sz l + 1))))"
      using Nd.prems 3 by (intro Nd.IH(2)[of "Some a"]) auto
    finally show ?thesis using 3 sl by (simp add: nth_append)
  qed
qed

definition is_head :: "'a heap \<Rightarrow> addr \<Rightarrow> ptr \<Rightarrow> bool" where
  "is_head h hp p = (h hp = Some (Node_new\<lparr>left := p\<rparr>))"

lemma Order_loop_ctx:
  assumes "repc h (Some hp) c (Some a)" "h a = Some n" "parent n = cpar (Some hp) c"
    "is_head h hp x" "\<forall>f \<in> set c. inv_size (sibling f)" "a \<notin> set (cpost c)"
    "distinct (cpre c @ cpost c)"
  shows "Order_loop h (Some a) ans = Some (ans + length (cpre c))"
  using assms
proof (induction c arbitrary: a n ans)
  case Nil
  have "Order_loop h (Some hp) ans = Some ans"
    using Nil.prems by (subst Order_loop.simps) (auto simp: deref_def is_head_def Node_new_def)
  then show ?case
    using Nil.prems by (subst Order_loop.simps) (auto simp: deref_def is_head_def Node_new_def)
next
  case (Cons f c)
  show ?case
  proof (cases f)
    case (FL a' s k b v r)
    have neq: "root r \<noteq> Some a" using Cons.prems FL by (cases r) auto
    have "Order_loop h (Some a) ans = Order_loop h (Some a') ans"
      using Cons.prems FL neq by (subst Order_loop.simps) (auto simp: deref_def)
    also have "\<dots> = Some (ans + length (cpre c))"
      using Cons.prems FL by (intro Cons.IH) auto
    finally show ?thesis using FL by simp
  next
    case (FR l a' s k b v)
    have sl: "Size h (root l) = Some (sz l)" "sz l = length (addrs l)"
      using Cons.prems FR Size_rep[of h "Some a'" l] by (auto simp: inv_size_sz)
    have "Order_loop h (Some a) ans = Order_loop h (Some a') (ans + (sz l + 1))"
      using Cons.prems FR sl by (subst Order_loop.simps) (auto simp: deref_def)
    also have "\<dots> = Some (ans + (sz l + 1) + length (cpre c))"
      using Cons.prems FR by (intro Cons.IH) auto
    finally show ?thesis using FR sl by simp
  qed
qed

lemma plug_climbR: "t \<noteq> Lf \<Longrightarrow> plug c t = plug (snd (climbR (raddr t) c)) (plugR c t) \<and>
   plugR c t \<noteq> Lf \<and> raddr (plugR c t) = fst (climbR (raddr t) c) \<and>
   length (snd (climbR (raddr t) c)) \<le> length c \<and>
   (\<exists>xs. addrs (plugR c t) = xs @ addrs t \<and> cpre c = cpre (snd (climbR (raddr t) c)) @ xs \<and>
      cpost c = cpost (snd (climbR (raddr t) c)))"
proof (induction c arbitrary: t)
  case Nil
  then show ?case by simp
next
  case (Cons f c)
  show ?case
  proof (cases f)
    case (FL a' s k b v r)
    then show ?thesis using Cons.prems by simp
  next
    case (FR l a' s k b v)
    from Cons.IH[of "Nd l a' s k b v t"] show ?thesis using FR by auto
  qed
qed

lemma plug_climbL: "t \<noteq> Lf \<Longrightarrow> plug c t = plug (snd (climbL (raddr t) c)) (plugL c t) \<and>
   plugL c t \<noteq> Lf \<and> raddr (plugL c t) = fst (climbL (raddr t) c) \<and>
   length (snd (climbL (raddr t) c)) \<le> length c \<and>
   (\<exists>xs. addrs (plugL c t) = addrs t @ xs \<and> cpost c = xs @ cpost (snd (climbL (raddr t) c)) \<and>
      cpre c = cpre (snd (climbL (raddr t) c)))"
proof (induction c arbitrary: t)
  case Nil
  then show ?case by simp
next
  case (Cons f c)
  show ?case
  proof (cases f)
    case (FR l a' s k b v)
    then show ?thesis using Cons.prems by simp
  next
    case (FL a' s k b v r)
    from Cons.IH[of "Nd t a' s k b v r"] show ?thesis using FL by auto
  qed
qed

lemma climb_right_ctx:
  assumes "repc h (Some hp) c (Some a)" "h a = Some n" "parent n = cpar (Some hp) c"
    "is_head h hp x" "a \<notin> set (cpost c)" "distinct (cpre c @ cpost c)"
  shows "climb_right h (Some a) = Some (Some (fst (climbR a c))) \<and>
    (\<exists>n'. h (fst (climbR a c)) = Some n' \<and> parent n' = cpar (Some hp) (snd (climbR a c)))"
  using assms
proof (induction c arbitrary: a n)
  case Nil
  then show ?case
    by (subst climb_right.simps) (auto simp: deref_def is_head_def Node_new_def)
next
  case (Cons f c)
  show ?case
  proof (cases f)
    case (FL a' s k b v r)
    have neq: "root r \<noteq> Some a" using Cons.prems FL by (cases r) auto
    show ?thesis
      using Cons.prems FL neq by (subst climb_right.simps) (auto simp: deref_def)
  next
    case (FR l a' s k b v)
    have "climb_right h (Some a) = climb_right h (Some a')"
      using Cons.prems FR by (subst climb_right.simps) (auto simp: deref_def)
    moreover have "climb_right h (Some a') = Some (Some (fst (climbR a' c))) \<and>
       (\<exists>n'. h (fst (climbR a' c)) = Some n' \<and> parent n' = cpar (Some hp) (snd (climbR a' c)))"
      using Cons.prems FR by (intro Cons.IH) auto
    ultimately show ?thesis using FR by simp
  qed
qed

lemma climb_left_ctx:
  assumes "repc h (Some hp) c (Some a)" "h a = Some n" "parent n = cpar (Some hp) c"
    "snd (climbL a c) \<noteq> []" "a \<notin> set (cpre c)" "distinct (cpre c @ cpost c)"
  shows "climb_left h (Some a) = Some (Some (fst (climbL a c))) \<and>
    (\<exists>n'. h (fst (climbL a c)) = Some n' \<and> parent n' = cpar (Some hp) (snd (climbL a c)))"
  using assms
proof (induction c arbitrary: a n)
  case Nil
  then show ?case by simp
next
  case (Cons f c)
  show ?case
  proof (cases f)
    case (FR l a' s k b v)
    have neq: "root l \<noteq> Some a" using Cons.prems FR by (cases l) auto
    show ?thesis
      using Cons.prems FR neq by (subst climb_left.simps) (auto simp: deref_def)
  next
    case (FL a' s k b v r)
    have "climb_left h (Some a) = climb_left h (Some a')"
      using Cons.prems FL by (subst climb_left.simps) (auto simp: deref_def)
    moreover have "climb_left h (Some a') = Some (Some (fst (climbL a' c))) \<and>
       (\<exists>n'. h (fst (climbL a' c)) = Some n' \<and> parent n' = cpar (Some hp) (snd (climbL a' c)))"
      using Cons.prems FL by (intro Cons.IH) auto
    ultimately show ?thesis using FL by simp
  qed
qed

lemma climbR_FL: "snd (climbR a c) = f # c' \<Longrightarrow> \<exists>a3 s3 k3 b3 v3 r3. f = FL a3 s3 k3 b3 v3 r3"
  by (induction a c rule: climbR.induct) auto

lemma climbL_FR: "snd (climbL a c) = f # c' \<Longrightarrow> \<exists>l3 a3 s3 k3 b3 v3. f = FR l3 a3 s3 k3 b3 v3"
  by (induction a c rule: climbL.induct) auto

lemma climbL_Nil: "snd (climbL a c) = [] \<Longrightarrow> cpre c = []"
  by (induction a c rule: climbL.induct) auto

lemma Advance_forth_ctx:
  assumes "rep h (Some hp) (plug c (Nd l a s k b v r))" "is_head h hp x"
    "inv_size (plug c (Nd l a s k b v r))" "distinct (addrs (plug c (Nd l a s k b v r)))"
    "0 < g" "length (cpre c) + length (addrs l) + g \<le> length (addrs (plug c (Nd l a s k b v r)))"
  shows "Advance_forth h (Some a) g =
    Some (cursor_at hp (plug c (Nd l a s k b v r)) (length (cpre c) + length (addrs l) + g))"
  using assms
proof (induction "length c" arbitrary: c l a s k b v r g rule: less_induct)
  case less
  let ?t0 = "Nd l a s k b v r"
  let ?T = "plug c ?t0"
  let ?n = "\<lparr>left = root l, right = root r, parent = cpar (Some hp) c, size_f = s, black_height = k,
        black = b, val = Some v\<rparr>"
  have rc: "repc h (Some hp) c (Some a)" and ha: "h a = Some ?n" and rr: "rep h (Some a) r"
    using less.prems(1) by (auto simp: rep_plug)
  have isz: "inv_size ?t0" using less.prems(3) inv_size_plug by blast
  then have szr: "sz r = length (addrs r)" "inv_size r" by (auto simp: inv_size_sz)
  have Sr: "Size h (root r) = Some (sz r)" using rr by (rule Size_rep)
  have aT: "addrs ?T = cpre c @ addrs l @ a # addrs r @ cpost c" by (simp add: addrs_plug)
  show ?case
  proof (cases "sz r < g")
    case False
    have "Advance_forth h (Some a) g = Select h (root r) (g - 1)"
      using ha Sr False by (subst Advance_forth.simps) (simp add: deref_def)
    also have "\<dots> = Some (Some (addrs r ! (g - 1)))"
      using rr szr False less.prems(5) by (intro Select_rep[of h "Some a"]) auto
    also have "addrs r ! (g - 1) = addrs ?T ! (length (cpre c) + length (addrs l) + g)"
    proof -
      have "g - 1 < length (addrs r)" "length (cpre c) + length (addrs l) + g = length (cpre c) + (length (addrs l) + (1 + (g - 1)))"
        using False less.prems(5) szr by auto
      then show ?thesis unfolding aT by (simp only: nth_append_length_plus) (simp add: nth_append)
    qed
    finally show ?thesis using False szr less.prems(5) by (simp add: cursor_at_def aT)
  next
    case True
    define g' where "g' = g - (sz r + 1)"
    define a2 where "a2 = fst (climbR a c)"
    define c2 where "c2 = snd (climbR a c)"
    have dist: "a \<notin> set (cpost c)" "distinct (cpre c @ cpost c)"
      using less.prems(4) by (auto simp: aT)
    from climb_right_ctx[OF rc ha _ less.prems(2) dist]
    obtain n' where cl: "climb_right h (Some a) = Some (Some a2)" "h a2 = Some n'"
      "parent n' = cpar (Some hp) c2"
      by (auto simp: a2_def c2_def)
    have step: "Advance_forth h (Some a) g =
      (if g' = 0 then Some (cpar (Some hp) c2) else Advance_forth h (cpar (Some hp) c2) g')"
      using ha Sr True cl by (subst Advance_forth.simps) (simp add: deref_def g'_def Let_def)
    from plug_climbR[of ?t0 c] obtain xs where
      pc: "?T = plug c2 (plugR c ?t0)" "length c2 \<le> length c"
      "addrs (plugR c ?t0) = xs @ addrs ?t0" "cpre c = cpre c2 @ xs" "cpost c = cpost c2"
      by (auto simp: c2_def)
    show ?thesis
    proof (cases c2)
      case Nil
      then have "cpost c = []" using pc by simp
      then have "g' = 0" "length (cpre c) + length (addrs l) + g = length (addrs ?T)"
        using less.prems(6) True szr by (auto simp: aT g'_def)
      then show ?thesis using step Nil by (simp add: cursor_at_def)
    next
      case (Cons f3 c3)
      then obtain a3 s3 k3 b3 v3 r3 where f3: "f3 = FL a3 s3 k3 b3 v3 r3"
        using climbR_FL[of a c f3 c3] by (auto simp: c2_def)
      let ?t3 = "Nd (plugR c ?t0) a3 s3 k3 b3 v3 r3"
      have T3: "?T = plug c3 ?t3" using pc(1) Cons f3 by simp
      have pos: "length (cpre c3) + length (addrs (plugR c ?t0)) = length (cpre c) + length (addrs l) + sz r + 1"
        using pc Cons f3 szr by simp
      have aT3: "addrs ?T = cpre c3 @ addrs (plugR c ?t0) @ a3 # addrs r3 @ cpost c3"
        unfolding T3 by (simp add: addrs_plug)
      show ?thesis
      proof (cases "g' = 0")
        case True
        have "length (cpre c) + length (addrs l) + g = length (cpre c3) + length (addrs (plugR c ?t0))"
          using pos True \<open>sz r < g\<close> by (simp add: g'_def)
        moreover have "addrs ?T ! (length (cpre c3) + length (addrs (plugR c ?t0))) = a3"
          unfolding aT3 by (simp add: nth_append)
        moreover have "length (cpre c3) + length (addrs (plugR c ?t0)) < length (addrs ?T)"
          unfolding aT3 by simp
        ultimately show ?thesis using step True Cons f3 by (simp add: cursor_at_def)
      next
        case False
        have "Advance_forth h (Some a3) g' =
          Some (cursor_at hp (plug c3 ?t3) (length (cpre c3) + length (addrs (plugR c ?t0)) + g'))"
        proof (rule less.hyps)
          show "length c3 < length c" using pc(2) Cons by simp
          show "rep h (Some hp) (plug c3 ?t3)" using less.prems(1) T3 by simp
          show "is_head h hp x" by fact
          show "inv_size (plug c3 ?t3)" using less.prems(3) T3 by simp
          show "distinct (addrs (plug c3 ?t3))" using less.prems(4) T3 by simp
          show "0 < g'" using False by simp
          show "length (cpre c3) + length (addrs (plugR c ?t0)) + g' \<le> length (addrs (plug c3 ?t3))"
            using less.prems(6) pos \<open>sz r < g\<close> T3 by (simp add: g'_def)
        qed
        moreover have "length (cpre c3) + length (addrs (plugR c ?t0)) + g' = length (cpre c) + length (addrs l) + g"
          using pos \<open>sz r < g\<close> by (simp add: g'_def)
        ultimately show ?thesis using step False Cons f3 T3 by simp
      qed
    qed
  qed
qed

lemma Advance_back_ctx:
  assumes "rep h (Some hp) (plug c (Nd l a s k b v r))" "is_head h hp x"
    "inv_size (plug c (Nd l a s k b v r))" "distinct (addrs (plug c (Nd l a s k b v r)))"
    "0 < g" "g \<le> length (cpre c) + length (addrs l)"
  shows "Advance_back h (Some a) g =
    Some (Some (addrs (plug c (Nd l a s k b v r)) ! (length (cpre c) + length (addrs l) - g)))"
  using assms
proof (induction "length c" arbitrary: c l a s k b v r g rule: less_induct)
  case less
  let ?t0 = "Nd l a s k b v r"
  let ?T = "plug c ?t0"
  let ?n = "\<lparr>left = root l, right = root r, parent = cpar (Some hp) c, size_f = s, black_height = k,
        black = b, val = Some v\<rparr>"
  have rc: "repc h (Some hp) c (Some a)" and ha: "h a = Some ?n" and rl: "rep h (Some a) l"
    using less.prems(1) by (auto simp: rep_plug)
  have isz: "inv_size ?t0" using less.prems(3) inv_size_plug by blast
  then have szl: "sz l = length (addrs l)" "inv_size l" by (auto simp: inv_size_sz)
  have Sl: "Size h (root l) = Some (sz l)" using rl by (rule Size_rep)
  have aT: "addrs ?T = cpre c @ addrs l @ a # addrs r @ cpost c" by (simp add: addrs_plug)
  show ?case
  proof (cases "sz l < g")
    case False
    have "Advance_back h (Some a) g = Select h (root l) (sz l - g)"
      using ha Sl False by (subst Advance_back.simps) (simp add: deref_def)
    also have "\<dots> = Some (Some (addrs l ! (sz l - g)))"
      using rl szl False less.prems(5) by (intro Select_rep[of h "Some a"]) auto
    also have "addrs l ! (sz l - g) = addrs ?T ! (length (cpre c) + length (addrs l) - g)"
    proof -
      have "sz l - g < length (addrs l)" "length (cpre c) + length (addrs l) - g = length (cpre c) + (sz l - g)"
        using False less.prems(5) szl by auto
      then show ?thesis unfolding aT by (simp only: nth_append_length_plus) (simp add: nth_append)
    qed
    finally show ?thesis .
  next
    case True
    define g' where "g' = g - (sz l + 1)"
    define a2 where "a2 = fst (climbL a c)"
    define c2 where "c2 = snd (climbL a c)"
    have dist: "a \<notin> set (cpre c)" "distinct (cpre c @ cpost c)"
      using less.prems(4) by (auto simp: aT)
    have ne: "snd (climbL a c) \<noteq> []"
      using climbL_Nil[of a c] True less.prems(6) szl by auto
    from climb_left_ctx[OF rc ha _ ne dist]
    obtain n' where cl: "climb_left h (Some a) = Some (Some a2)" "h a2 = Some n'"
      "parent n' = cpar (Some hp) c2"
      by (auto simp: a2_def c2_def)
    have step: "Advance_back h (Some a) g =
      (if g' = 0 then Some (cpar (Some hp) c2) else Advance_back h (cpar (Some hp) c2) g')"
      using ha Sl True cl by (subst Advance_back.simps) (simp add: deref_def g'_def Let_def)
    from plug_climbL[of ?t0 c] obtain xs where
      pc: "?T = plug c2 (plugL c ?t0)" "length c2 \<le> length c"
      "addrs (plugL c ?t0) = addrs ?t0 @ xs" "cpost c = xs @ cpost c2" "cpre c = cpre c2"
      by (auto simp: c2_def)
    from ne obtain f3 c3 where Cons: "c2 = f3 # c3" by (cases c2) (auto simp: c2_def)
    then obtain l3 a3 s3 k3 b3 v3 where f3: "f3 = FR l3 a3 s3 k3 b3 v3"
      using climbL_FR[of a c f3 c3] by (auto simp: c2_def)
    let ?t3 = "Nd l3 a3 s3 k3 b3 v3 (plugL c ?t0)"
    have T3: "?T = plug c3 ?t3" using pc(1) Cons f3 by simp
    have pos: "length (cpre c3) + length (addrs l3) + sz l + 1 = length (cpre c) + length (addrs l)"
      using pc Cons f3 szl by simp
    have aT3: "addrs ?T = cpre c3 @ addrs l3 @ a3 # addrs (plugL c ?t0) @ cpost c3"
      unfolding T3 by (simp add: addrs_plug)
    show ?thesis
    proof (cases "g' = 0")
      case True
      have "length (cpre c) + length (addrs l) - g = length (cpre c3) + length (addrs l3)"
        using pos True \<open>sz l < g\<close> by (simp add: g'_def)
      moreover have "addrs ?T ! (length (cpre c3) + length (addrs l3)) = a3"
        unfolding aT3 by (simp add: nth_append)
      ultimately show ?thesis using step True Cons f3 by simp
    next
      case False
      have "Advance_back h (Some a3) g' =
        Some (Some (addrs (plug c3 ?t3) ! (length (cpre c3) + length (addrs l3) - g')))"
      proof (rule less.hyps)
        show "length c3 < length c" using pc(2) Cons by simp
        show "rep h (Some hp) (plug c3 ?t3)" using less.prems(1) T3 by simp
        show "is_head h hp x" by fact
        show "inv_size (plug c3 ?t3)" using less.prems(3) T3 by simp
        show "distinct (addrs (plug c3 ?t3))" using less.prems(4) T3 by simp
        show "0 < g'" using False by simp
        show "g' \<le> length (cpre c3) + length (addrs l3)"
          using less.prems(6) pos \<open>sz l < g\<close> by (simp add: g'_def)
      qed
      moreover have "length (cpre c3) + length (addrs l3) - g' = length (cpre c) + length (addrs l) - g"
        using pos \<open>sz l < g\<close> less.prems(6) by (simp add: g'_def)
      ultimately show ?thesis using step False Cons f3 T3 by simp
    qed
  qed
qed

text \<open>The sequence \<open>[10, 20, 30]\<close> under the head at address 0.\<close>

definition ex_t3 :: "nat tree" where
  "ex_t3 = Nd (Nd Lf 1 1 0 False 10 Lf) 2 3 1 True 20 (Nd Lf 3 1 0 False 30 Lf)"

definition ex_heap3 :: "nat heap" where
  "ex_heap3 = (\<lambda>a. None)
     (0 \<mapsto> Node_new\<lparr>left := Some 2\<rparr>,
      1 \<mapsto> \<lparr>left = None, right = None, parent = Some 2, size_f = 1, black_height = 0,
             black = False, val = Some 10\<rparr>,
      2 \<mapsto> \<lparr>left = Some 1, right = Some 3, parent = Some 0, size_f = 3, black_height = 1,
             black = True, val = Some 20\<rparr>,
      3 \<mapsto> \<lparr>left = None, right = None, parent = Some 2, size_f = 1, black_height = 0,
             black = False, val = Some 30\<rparr>)"


lemma Order_cursor:
  assumes "tree_at h hp t" "inv_size t" "j \<le> length (addrs t)"
  shows "Order h (cursor_at hp t j) = Some j"
proof (cases "j < length (addrs t)")
  case True
  from plug_decompose[OF True] obtain c l s k b v r where
    d: "t = plug c (Nd l (addrs t ! j) s k b v r)" "length (cpre c) + length (addrs l) = j"
    by blast
  define a where "a = addrs t ! j"
  let ?n = "\<lparr>left = root l, right = root r, parent = cpar (Some hp) c, size_f = s, black_height = k,
        black = b, val = Some v\<rparr>"
  have T: "t = plug c (Nd l a s k b v r)" using d by (simp add: a_def)
  have rp: "rep h (Some hp) (plug c (Nd l a s k b v r))" using assms(1) T by (simp add: tree_at_def)
  have rc: "repc h (Some hp) c (Some a)" and ha: "h a = Some ?n" and rl: "rep h (Some a) l"
    using rp by (auto simp: rep_plug)
  have hd: "is_head h hp (root t)" using assms(1) by (simp add: tree_at_def is_head_def)
  have isz: "inv_size (Nd l a s k b v r)" "\<forall>f \<in> set c. inv_size (sibling f)"
    using assms(2) inv_size_plug[of c "Nd l a s k b v r"] T by auto
  have dist: "a \<notin> set (cpost c)" "distinct (cpre c @ cpost c)"
    using assms(1) unfolding tree_at_def T by (auto simp: addrs_plug)
  have "Order h (Some a) = Order_loop h (Some a) (sz l)"
    using ha Size_rep[OF rl] by (simp add: Order_def deref_def)
  also have "\<dots> = Some (sz l + length (cpre c))"
    using rc ha hd isz(2) dist by (intro Order_loop_ctx) auto
  finally show ?thesis using True d(2) isz(1) by (simp add: cursor_at_def a_def inv_size_sz)
next
  case False
  have "Order_loop h (Some hp) (sz t) = Some (sz t)"
    using assms(1) by (subst Order_loop.simps) (simp add: tree_at_def deref_def Node_new_def)
  moreover have "Size h (root t) = Some (sz t)"
    using assms(1) by (intro Size_rep[of h "Some hp"]) (simp add: tree_at_def)
  ultimately have "Order h (Some hp) = Some (sz t)"
    using assms(1) by (simp add: Order_def tree_at_def deref_def Node_new_def)
  then show ?thesis using False assms(2,3) by (simp add: cursor_at_def inv_size_sz)
qed

lemma Advance_cursor:
  assumes "tree_at h hp t" "inv_size t" "i \<le> length (addrs t)"
    "0 \<le> int i + k" "int i + k \<le> int (length (addrs t))"
  shows "Advance h (cursor_at hp t i) k = Some (cursor_at hp t (nat (int i + k)))"
proof -
  have hd: "is_head h hp (root t)" using assms(1) by (simp add: tree_at_def is_head_def)
  consider "k = 0" | "k > 0" | "k < 0" "i = length (addrs t)" | "k < 0" "i < length (addrs t)"
    using assms(3) by force
  then show ?thesis
  proof cases
    case 1
    then show ?thesis by (simp add: Advance_def)
  next
    case 2
    then have lt: "i < length (addrs t)" using assms(5) by linarith
    from plug_decompose[OF lt] obtain c l s k' b v r where
      d: "t = plug c (Nd l (addrs t ! i) s k' b v r)" "length (cpre c) + length (addrs l) = i"
      by blast
    define a where "a = addrs t ! i"
    have T: "t = plug c (Nd l a s k' b v r)" using d by (simp add: a_def)
    have p1: "rep h (Some hp) (plug c (Nd l a s k' b v r))"
      using assms(1) by (simp add: tree_at_def flip: T)
    have p3: "inv_size (plug c (Nd l a s k' b v r))" using assms(2) by (simp flip: T)
    have p4: "distinct (addrs (plug c (Nd l a s k' b v r)))"
      using assms(1) by (simp add: tree_at_def flip: T)
    have p6: "length (cpre c) + length (addrs l) + nat k \<le> length (addrs (plug c (Nd l a s k' b v r)))"
      using assms(5) 2 d(2) by (simp flip: T)
    have "Advance_forth h (Some a) (nat k) =
      Some (cursor_at hp (plug c (Nd l a s k' b v r)) (length (cpre c) + length (addrs l) + nat k))"
      using 2 by (intro Advance_forth_ctx[OF p1 hd p3 p4 _ p6]) simp
    moreover have "length (cpre c) + length (addrs l) + nat k = nat (int i + k)"
      using d(2) 2 by simp
    ultimately have "Advance_forth h (Some a) (nat k) = Some (cursor_at hp t (nat (int i + k)))"
      by (simp flip: T)
    then show ?thesis using 2 lt by (simp add: Advance_def cursor_at_def a_def)
  next
    case 3
    have sz: "sz t = length (addrs t)" using assms(2) by (rule inv_size_sz)
    have g: "nat (- k) \<le> sz t" "0 < nat (- k)" using 3 assms(4) sz by auto
    have S: "Size h (root t) = Some (sz t)"
      using assms(1) by (intro Size_rep[of h "Some hp"]) (simp add: tree_at_def)
    have "Advance_back h (Some hp) (nat (- k)) = Select h (root t) (sz t - nat (- k))"
      using assms(1) S g by (subst Advance_back.simps) (simp add: tree_at_def deref_def Node_new_def)
    also have "\<dots> = Some (Some (addrs t ! (sz t - nat (- k))))"
      using assms(1,2) g by (intro Select_rep[of h "Some hp"]) (auto simp: tree_at_def)
    also have "sz t - nat (- k) = nat (int i + k)" using 3 g sz by simp
    finally have "Advance_back h (Some hp) (nat (- k)) = Some (Some (addrs t ! nat (int i + k)))" .
    moreover have "nat (int i + k) < length (addrs t)" using 3 assms(4) by linarith
    ultimately show ?thesis using 3 by (simp add: Advance_def cursor_at_def)
  next
    case 4
    from plug_decompose[OF 4(2)] obtain c l s k' b v r where
      d: "t = plug c (Nd l (addrs t ! i) s k' b v r)" "length (cpre c) + length (addrs l) = i"
      by blast
    define a where "a = addrs t ! i"
    have T: "t = plug c (Nd l a s k' b v r)" using d by (simp add: a_def)
    have p1: "rep h (Some hp) (plug c (Nd l a s k' b v r))"
      using assms(1) by (simp add: tree_at_def flip: T)
    have p3: "inv_size (plug c (Nd l a s k' b v r))" using assms(2) by (simp flip: T)
    have p4: "distinct (addrs (plug c (Nd l a s k' b v r)))"
      using assms(1) by (simp add: tree_at_def flip: T)
    have p6: "nat (- k) \<le> length (cpre c) + length (addrs l)"
      using assms(4) 4 d(2) by simp
    have "Advance_back h (Some a) (nat (- k)) =
      Some (Some (addrs (plug c (Nd l a s k' b v r)) ! (length (cpre c) + length (addrs l) - nat (- k))))"
      using 4 by (intro Advance_back_ctx[OF p1 hd p3 p4 _ p6]) simp
    moreover have "length (cpre c) + length (addrs l) - nat (- k) = nat (int i + k)"
      using d(2) 4 assms(4) by simp
    moreover have "nat (int i + k) < length (addrs t)" using 4 assms(4) by simp
    ultimately have "Advance_back h (Some a) (nat (- k)) = Some (cursor_at hp t (nat (int i + k)))"
      by (simp add: cursor_at_def flip: T)
    then show ?thesis using 4 by (simp add: Advance_def cursor_at_def a_def)
  qed
qed

lemma select_at_cursor:
  assumes "tree_at h hp t" "inv_size t" "r < length (addrs t)"
  shows "select_at h \<lparr>head = Some hp\<rparr> r = Some (cursor_at hp t r)"
  using assms Select_rep[of h "Some hp" t r]
  by (simp add: select_at_def tree_at_def deref_def Node_new_def cursor_at_def inv_size_sz)

lemma size_of_tree_at:
  assumes "tree_at h hp t" "inv_size t"
  shows "size_of h \<lparr>head = Some hp\<rparr> = Some (length (addrs t))"
  using assms Size_rep[of h "Some hp" t]
  by (simp add: size_of_def tree_at_def deref_def Node_new_def inv_size_sz)

section \<open>Select, order and advance\<close>

text \<open>
  C5.  In a tree whose size fields are right, selecting rank \<open>r < size()\<close> from the root
  and taking the order of the node found gives \<open>r\<close> back; and for the cursor at any
  position \<open>i\<close> (a node, or the end cursor at \<open>i = size()\<close>) and any offset \<open>k\<close>
  with \<open>0 \<le> i + k \<le> size()\<close>, advancing by \<open>k\<close> and subtracting the original
  cursor gives \<open>k\<close>.
\<close>

theorem select_order_advance_roundtrip:
  assumes "tree_at h hp t" "inv_size t"
  shows "size_of h \<lparr>head = Some hp\<rparr> = Some (length (addrs t)) \<and>
    (\<forall>r < length (addrs t). \<exists>p. select_at h \<lparr>head = Some hp\<rparr> r = Some p \<and> Order h p = Some r) \<and>
    (\<forall>i k. i \<le> length (addrs t) \<and> 0 \<le> int i + k \<and> int i + k \<le> int (length (addrs t)) \<longrightarrow>
       (\<exists>q. Advance h (cursor_at hp t i) k = Some q \<and> Difference h q (cursor_at hp t i) = Some k \<and>
            Order h (cursor_at hp t i) = Some i))"
proof (intro conjI allI impI)
  show "size_of h \<lparr>head = Some hp\<rparr> = Some (length (addrs t))"
    using assms by (rule size_of_tree_at)
next
  fix r assume "r < length (addrs t)"
  then show "\<exists>p. select_at h \<lparr>head = Some hp\<rparr> r = Some p \<and> Order h p = Some r"
    using select_at_cursor[OF assms] Order_cursor[OF assms, of r] by simp
next
  fix i k
  assume a: "i \<le> length (addrs t) \<and> 0 \<le> int i + k \<and> int i + k \<le> int (length (addrs t))"
  then have "Advance h (cursor_at hp t i) k = Some (cursor_at hp t (nat (int i + k)))"
    using Advance_cursor[OF assms] by blast
  moreover have "Order h (cursor_at hp t (nat (int i + k))) = Some (nat (int i + k))"
    using a by (intro Order_cursor[OF assms]) auto
  moreover have "Order h (cursor_at hp t i) = Some i"
    using a by (intro Order_cursor[OF assms]) auto
  ultimately show "\<exists>q. Advance h (cursor_at hp t i) k = Some q \<and>
      Difference h q (cursor_at hp t i) = Some k \<and> Order h (cursor_at hp t i) = Some i"
    using a by (simp add: Difference_def)
qed

lemma ex_heap3_t3: "tree_at ex_heap3 0 ex_t3"
  by (simp add: tree_at_def ex_heap3_def ex_t3_def Node_new_def)

theorem select_order_advance_roundtrip_witness:
  "tree_at ex_heap3 0 ex_t3 \<and> inv_size ex_t3 \<and>
   size_of ex_heap3 \<lparr>head = Some 0\<rparr> = Some 3 \<and>
   (\<exists>p. select_at ex_heap3 \<lparr>head = Some 0\<rparr> 2 = Some p \<and> Order ex_heap3 p = Some 2) \<and>
   (\<exists>q. Advance ex_heap3 (Some 3) (- 2) = Some q \<and> Difference ex_heap3 q (Some 3) = Some (- 2))"
proof -
  have i: "inv_size ex_t3" by (simp add: ex_t3_def)
  have l: "length (addrs ex_t3) = 3" "cursor_at 0 ex_t3 2 = Some 3" by (simp_all add: ex_t3_def cursor_at_def)
  note r = select_order_advance_roundtrip[OF ex_heap3_t3 i]
  have "\<exists>p. select_at ex_heap3 \<lparr>head = Some 0\<rparr> 2 = Some p \<and> Order ex_heap3 p = Some 2"
    using r l by simp
  moreover have "\<exists>q. Advance ex_heap3 (cursor_at 0 ex_t3 2) (- 2) = Some q \<and>
      Difference ex_heap3 q (cursor_at 0 ex_t3 2) = Some (- 2) \<and> Order ex_heap3 (cursor_at 0 ex_t3 2) = Some 2"
    using r l(1) by (elim conjE allE[of _ 2] allE[of _ "- 2"]) simp
  ultimately show ?thesis using r l i ex_heap3_t3 by auto
qed

end
